theory Spec2Isabelle
  imports Main "HOL-Library.Word" "HOL-Library.Multiset"
begin

unbundle bit_operations_syntax

section \<open>Outcome of a call\<close>

text \<open>
  The printer has no error returns; what can go wrong is a Go panic.  A call either
  returns, panics, or (in the fuel-indexed model of the recursion through \<open>Format\<close>)
  runs out of fuel.
\<close>

datatype panic =
    InterfaceOnInvalid
  | InterfaceOnUnexported
  | DivideByZero
  | TypeAssertion
  | IndexOutOfRange
  | TypeOnInvalid
  | KindMismatch

datatype 'a outcome = Return 'a | Panic panic | OutOfFuel

fun andThen :: "'a outcome \<Rightarrow> ('a \<Rightarrow> 'b outcome) \<Rightarrow> 'b outcome" where
  "andThen (Return x) f = f x"
| "andThen (Panic e) f = Panic e"
| "andThen OutOfFuel f = OutOfFuel"

section \<open>Number formatting of package fmt, as far as the printer uses it\<close>

definition digit :: "nat \<Rightarrow> char" where
  "digit d = (if d < 16 then ''0123456789abcdef'' ! d else CHR ''?'')"

text \<open>\<open>strconv.FormatUint n base\<close>, for the bases 10 and 16 the printer asks for.\<close>

function FormatUint :: "nat \<Rightarrow> nat \<Rightarrow> string" where
  "FormatUint n b =
     (if b < 2 \<or> n < b then [digit n] else FormatUint (n div b) b @ [digit (n mod b)])"
  by pat_completeness auto
termination
  by (relation "measure fst") auto

text \<open>\<open>%d\<close> and \<open>%v\<close> of a signed integer.\<close>

definition FormatInt :: "int \<Rightarrow> string" where
  "FormatInt i = (if i < 0 then ''-'' @ FormatUint (nat (- i)) 10 else FormatUint (nat i) 10)"

text \<open>Zero padding on the left to a minimal width (\<open>%02x\<close>, \<open>%04x\<close>, ...).\<close>

definition zeroPad :: "nat \<Rightarrow> string \<Rightarrow> string" where
  "zeroPad w s = replicate (w - length s) (CHR ''0'') @ s"

text \<open>\<open>fmt.Sprintf("0x%0<w>x", n)\<close>.\<close>

definition Sprintf_0x :: "nat \<Rightarrow> nat \<Rightarrow> string" where
  "Sprintf_0x w n = ''0x'' @ zeroPad w (FormatUint n 16)"

text \<open>\<open>fmt.Sprintf("%#v", n)\<close> of an unsigned integer: hexadecimal with the prefix.\<close>

definition Sprintf_sharp_v_uint :: "nat \<Rightarrow> string" where
  "Sprintf_sharp_v_uint n = ''0x'' @ FormatUint n 16"

definition Sprintf_sharp_v_bool :: "bool \<Rightarrow> string" where
  "Sprintf_sharp_v_bool b = (if b then ''true'' else ''false'')"

text \<open>\<open>strings.Split s sep\<close> for a one-byte separator; the result is never empty.\<close>

fun Split :: "string \<Rightarrow> char \<Rightarrow> string list" where
  "Split [] sep = [[]]"
| "Split (c # cs) sep =
     (if c = sep then [] # Split cs sep
      else (case Split cs sep of [] \<Rightarrow> [[c]] | q # qs \<Rightarrow> (c # q) # qs))"

text \<open>\<open>strings.IndexByte\<close>: the position of the first occurrence, if any.\<close>

fun IndexByte :: "string \<Rightarrow> char \<Rightarrow> nat option" where
  "IndexByte [] c = None"
| "IndexByte (x # xs) c =
     (if x = c then Some 0 else (case IndexByte xs c of None \<Rightarrow> None | Some i \<Rightarrow> Some (Suc i)))"

section \<open>Colour schemes (color.go)\<close>

type_synonym uint16 = "16 word"

definition NoColor :: uint16 where "NoColor = push_bit 15 1"

definition bitsForeground :: nat where "bitsForeground = 0"
definition maskForeground :: uint16 where "maskForeground = 0xf"
definition ansiForegroundOffset :: uint16 where "ansiForegroundOffset = 30 - 1"

definition bitsBackground :: nat where "bitsBackground = 4"
definition maskBackground :: uint16 where "maskBackground = push_bit bitsBackground 0xf"
definition ansiBackgroundOffset :: uint16 where "ansiBackgroundOffset = 40 - 1"

definition bitsBold :: nat where "bitsBold = 8"
definition maskBold :: uint16 where "maskBold = push_bit bitsBold 1"

definition Black :: uint16 where "Black = 1 OR NoColor"
definition Red :: uint16 where "Red = 2 OR NoColor"
definition Green :: uint16 where "Green = 3 OR NoColor"
definition Yellow :: uint16 where "Yellow = 4 OR NoColor"
definition Blue :: uint16 where "Blue = 5 OR NoColor"
definition Magenta :: uint16 where "Magenta = 6 OR NoColor"
definition Cyan :: uint16 where "Cyan = 7 OR NoColor"
definition White :: uint16 where "White = 8 OR NoColor"
definition Bold :: uint16 where "Bold = push_bit bitsBold 1 OR NoColor"

datatype ColorField =
    BoolColor
  | IntegerColor
  | FloatColor
  | StringColor
  | StringQuotationColor
  | EscapedCharColor
  | FieldNameColor
  | PointerAdressColor
  | NilColor
  | TimeColor
  | StructNameColor
  | ObjectLengthColor

record ColorScheme =
  schemeBool :: uint16
  schemeInteger :: uint16
  schemeFloat :: uint16
  schemeString :: uint16
  schemeStringQuotation :: uint16
  schemeEscapedChar :: uint16
  schemeFieldName :: uint16
  schemePointerAdress :: uint16
  schemeNil :: uint16
  schemeTime :: uint16
  schemeStructName :: uint16
  schemeObjectLength :: uint16

definition DefaultScheme :: ColorScheme where
  "DefaultScheme =
     \<lparr> schemeBool = Cyan OR Bold,
       schemeInteger = Blue OR Bold,
       schemeFloat = Magenta OR Bold,
       schemeString = Red,
       schemeStringQuotation = Red OR Bold,
       schemeEscapedChar = Magenta OR Bold,
       schemeFieldName = Yellow,
       schemePointerAdress = Blue OR Bold,
       schemeNil = Cyan OR Bold,
       schemeTime = Blue OR Bold,
       schemeStructName = Green,
       schemeObjectLength = Blue \<rparr>"

text \<open>
  \<open>ColorScheme.Get\<close>.  The source panics on an integer that is none of the twelve
  constants; the printer only ever passes the constants, which are the constructors of
  \<open>ColorField\<close>.
\<close>

fun Get :: "ColorScheme \<Rightarrow> ColorField \<Rightarrow> uint16" where
  "Get s BoolColor = schemeBool s"
| "Get s IntegerColor = schemeInteger s"
| "Get s FloatColor = schemeFloat s"
| "Get s StringColor = schemeString s"
| "Get s StringQuotationColor = schemeStringQuotation s"
| "Get s EscapedCharColor = schemeEscapedChar s"
| "Get s FieldNameColor = schemeFieldName s"
| "Get s PointerAdressColor = schemePointerAdress s"
| "Get s NilColor = schemeNil s"
| "Get s TimeColor = schemeTime s"
| "Get s StructNameColor = schemeStructName s"
| "Get s ObjectLengthColor = schemeObjectLength s"

definition ESC :: char where "ESC = CHR 0x1B"

definition ColorizeText :: "string \<Rightarrow> uint16 \<Rightarrow> string" where
  "ColorizeText text color =
     (let foreground = drop_bit bitsForeground (color AND maskForeground);
          background = drop_bit bitsBackground (color AND maskBackground);
          bold = color AND maskBold
      in if foreground = 0 \<and> background = 0 \<and> bold = 0 then text
         else
           let modBold = (if bold > 0 then ESC # ''[1m'' else '''');
               modForeground =
                 (if foreground > 0
                  then ESC # ''['' @ FormatUint (unat (foreground + ansiForegroundOffset)) 10 @ ''m''
                  else '''');
               modBackground =
                 (if background > 0
                  then ESC # ''['' @ FormatUint (unat (background + ansiBackgroundOffset)) 10 @ ''m''
                  else '''')
           in modForeground @ modBackground @ modBold @ text @ ESC # ''[0m'')"

section \<open>Values as package reflect presents them\<close>

datatype kind =
    KInvalid | KBool
  | KInt | KInt8 | KInt16 | KInt32 | KInt64
  | KUint | KUint8 | KUint16 | KUint32 | KUint64 | KUintptr
  | KFloat32 | KFloat64 | KComplex64 | KComplex128
  | KArray | KChan | KFunc | KInterface | KMap | KPtr | KSlice | KString | KStruct
  | KUnsafePointer

text \<open>
  What the printer reads from a \<open>reflect.Type\<close>: its \<open>String()\<close>, its \<open>PkgPath()\<close>
  and, for an array or slice type, \<open>Elem().Kind()\<close>.  The kind of the type itself is
  given by the shape of the value (\<open>Kind\<close> below).
\<close>

record rtype =
  tyString :: string
  tyPkgPath :: string
  tyElemKind :: kind

text \<open>
  A \<open>reflect.StructField\<close>: \<open>Name\<close>, \<open>PkgPath\<close> (empty exactly for an exported
  field) and the result of \<open>Tag.Get("pp")\<close>.
\<close>

record StructField =
  Name :: string
  PkgPath :: string
  TagGet_pp :: string

type_synonym addr = nat

text \<open>Machine integers, with their width; \<open>IntOf\<close> and \<open>UintOf\<close> read them as \<open>v.Int()\<close> and \<open>v.Uint()\<close> do.\<close>

datatype intval =
  I "64 word" | I8 "8 word" | I16 "16 word" | I32 "32 word" | I64 "64 word"

datatype uintval =
  U "64 word" | U8 "8 word" | U16 "16 word" | U32 "32 word" | U64 "64 word" | Uptr "64 word"

fun IntOf :: "intval \<Rightarrow> int" where
  "IntOf (I w) = sint w"
| "IntOf (I8 w) = sint w"
| "IntOf (I16 w) = sint w"
| "IntOf (I32 w) = sint w"
| "IntOf (I64 w) = sint w"

fun UintOf :: "uintval \<Rightarrow> nat" where
  "UintOf (U w) = unat w"
| "UintOf (U8 w) = unat w"
| "UintOf (U16 w) = unat w"
| "UintOf (U32 w) = unat w"
| "UintOf (U64 w) = unat w"
| "UintOf (Uptr w) = unat w"

datatype floatkind = F32 | F64
datatype complexkind = C64 | C128

text \<open>
  Values.  A float is the IEEE-754 bit pattern of \<open>v.Float()\<close> (a float64).  A slice is
  its header (address of element 0 and length), a map and a pointer are addresses; what
  they refer to lives in the heap, so that values can be shared and cyclic.  Address 0
  is nil.  A struct carries its fields in declaration order, an interface value the
  value it holds (\<open>VInvalid\<close> when it holds nothing).
\<close>

datatype val =
    VInvalid
  | VBool rtype bool
  | VInt rtype intval
  | VUint rtype uintval
  | VFloat rtype floatkind "64 word"
  | VComplex rtype complexkind "64 word" "64 word"
  | VString rtype string
  | VArray rtype "val list"
  | VSlice rtype addr nat
  | VMap rtype addr
  | VStruct rtype "(StructField \<times> val) list"
  | VPtr rtype addr
  | VInterface rtype val
  | VChan rtype addr
  | VFunc rtype addr
  | VUnsafePointer rtype addr

fun Kind :: "val \<Rightarrow> kind" where
  "Kind VInvalid = KInvalid"
| "Kind (VBool t b) = KBool"
| "Kind (VInt t (I w)) = KInt"
| "Kind (VInt t (I8 w)) = KInt8"
| "Kind (VInt t (I16 w)) = KInt16"
| "Kind (VInt t (I32 w)) = KInt32"
| "Kind (VInt t (I64 w)) = KInt64"
| "Kind (VUint t (U w)) = KUint"
| "Kind (VUint t (U8 w)) = KUint8"
| "Kind (VUint t (U16 w)) = KUint16"
| "Kind (VUint t (U32 w)) = KUint32"
| "Kind (VUint t (U64 w)) = KUint64"
| "Kind (VUint t (Uptr w)) = KUintptr"
| "Kind (VFloat t F32 x) = KFloat32"
| "Kind (VFloat t F64 x) = KFloat64"
| "Kind (VComplex t C64 x y) = KComplex64"
| "Kind (VComplex t C128 x y) = KComplex128"
| "Kind (VString t s) = KString"
| "Kind (VArray t xs) = KArray"
| "Kind (VSlice t a n) = KSlice"
| "Kind (VMap t a) = KMap"
| "Kind (VStruct t fs) = KStruct"
| "Kind (VPtr t a) = KPtr"
| "Kind (VInterface t x) = KInterface"
| "Kind (VChan t a) = KChan"
| "Kind (VFunc t a) = KFunc"
| "Kind (VUnsafePointer t a) = KUnsafePointer"

text \<open>
  \<open>v.Type()\<close>, as far as equality of types goes: the descriptor and the kind.  It is
  \<open>None\<close> for the zero Value, where the source panics.
\<close>

fun rtypeOf :: "val \<Rightarrow> rtype option" where
  "rtypeOf VInvalid = None"
| "rtypeOf (VBool t b) = Some t"
| "rtypeOf (VInt t i) = Some t"
| "rtypeOf (VUint t u) = Some t"
| "rtypeOf (VFloat t k x) = Some t"
| "rtypeOf (VComplex t k x y) = Some t"
| "rtypeOf (VString t s) = Some t"
| "rtypeOf (VArray t xs) = Some t"
| "rtypeOf (VSlice t a n) = Some t"
| "rtypeOf (VMap t a) = Some t"
| "rtypeOf (VStruct t fs) = Some t"
| "rtypeOf (VPtr t a) = Some t"
| "rtypeOf (VInterface t x) = Some t"
| "rtypeOf (VChan t a) = Some t"
| "rtypeOf (VFunc t a) = Some t"
| "rtypeOf (VUnsafePointer t a) = Some t"

definition Type :: "val \<Rightarrow> kind \<times> rtype option" where
  "Type v = (Kind v, rtypeOf v)"

text \<open>
  A \<open>reflect.Value\<close> handed to the printer: the value and the read-only flag that
  reflect sets on whatever was reached through an unexported struct field.
\<close>

type_synonym Value = "bool \<times> val"

text \<open>
  The heap: the entries of each map in the order in which \<open>MapKeys\<close> enumerates them,
  the backing store of each slice from its first element on, and the target of each
  pointer.
\<close>

record heap =
  mapData :: "(addr \<times> (val \<times> val) list) list"
  sliceData :: "(addr \<times> val list) list"
  ptrData :: "(addr \<times> val) list"

definition MapEntries :: "heap \<Rightarrow> addr \<Rightarrow> (val \<times> val) list" where
  "MapEntries h a =
     (if a = 0 then [] else (case map_of (mapData h) a of None \<Rightarrow> [] | Some es \<Rightarrow> es))"

definition SliceElems :: "heap \<Rightarrow> addr \<Rightarrow> nat \<Rightarrow> val list" where
  "SliceElems h a n =
     (if a = 0 then [] else (case map_of (sliceData h) a of None \<Rightarrow> [] | Some xs \<Rightarrow> take n xs))"

definition PtrElem :: "heap \<Rightarrow> addr \<Rightarrow> val" where
  "PtrElem h a =
     (if a = 0 then VInvalid else (case map_of (ptrData h) a of None \<Rightarrow> VInvalid | Some x \<Rightarrow> x))"

text \<open>The addresses the heap holds something at.\<close>

definition addrs :: "heap \<Rightarrow> addr set" where
  "addrs h = fst ` set (mapData h) \<union> fst ` set (sliceData h) \<union> fst ` set (ptrData h)"

text \<open>
  \<open>v.Interface()\<close> as \<open>Format\<close> uses it: the dynamic value (an interface value gives
  what it holds); it panics on the zero Value and on a read-only Value.
\<close>

definition Interface :: "Value \<Rightarrow> panic + val" where
  "Interface rv =
     (case rv of (ro, v) \<Rightarrow>
        if v = VInvalid then Inl InterfaceOnInvalid
        else if ro then Inl InterfaceOnUnexported
        else Inr (case v of VInterface t x \<Rightarrow> x | _ \<Rightarrow> v))"

section \<open>The printer (Printer and its small operations)\<close>

text \<open>
  \<open>Buffer\<close> is what the tab writer has emitted so far, \<open>tw\<close> is the text written to
  the tab writer since it was last flushed.  \<open>visited\<close> is the set of keys of the Go map
  (only \<open>true\<close> is ever stored in it).  \<open>localizedPrinter\<close> tells whether the field is
  non-nil.
\<close>

record Printer =
  Buffer :: string
  tw :: string
  depth :: nat
  pvalue :: Value
  visited :: "addr set"
  colorScheme :: "ColorScheme option"
  decimalUint :: bool
  exportedOnly :: bool
  thousandsSeparator :: bool
  localizedPrinter :: bool

text \<open>
  What the printer takes from libraries outside the repository, as parameters:
  \<^item> \<open>Flush\<close>: \<open>text/tabwriter\<close>, initialised with \<open>Init(buffer, 4, 0, 1, ' ', 0)\<close>:
    the text it emits for the text written to it between two flushes;
  \<^item> \<open>Quote\<close>: \<open>strconv.Quote\<close>;
  \<^item> \<open>Sprintf_f\<close>: \<open>fmt.Sprintf("%f", x)\<close> of a float64;
  \<^item> \<open>LocalizedSprintf_d\<close>, \<open>LocalizedSprintf_f\<close>: \<open>Sprintf\<close> of
    \<open>message.NewPrinter(language.English)\<close> on an integer (\<open>%d\<close>, \<open>%v\<close>) and on a
    float64 (\<open>%f\<close>);
  \<^item> \<open>Sprintf_sharp_v_complex\<close>, \<open>Sprintf_sharp_v\<close>: \<open>fmt.Sprintf("%#v", x)\<close> of a
    complex number and of any other value;
  \<^item> \<open>TimeOf\<close>: year, month, day, hour, minute, second and location name of a
    \<open>time.Time\<close>; \<open>BigIntString\<close>, \<open>BigFloatString\<close>: \<open>String()\<close> of a \<open>big.Int\<close>
    and of a \<open>big.Float\<close>;
  \<^item> \<open>PrettyPrint\<close>: the method \<open>PrettyPrint(*Printer)\<close> of the types that have one
    (\<open>None\<close> for a value whose type has none).  Such a method is taken to print a text
    to the printer it is given and to do nothing else, as \<open>BootIndex.PrettyPrint\<close>
    of this repository does.
\<close>

record stdlib =
  Flush :: "string \<Rightarrow> string"
  Quote :: "string \<Rightarrow> string"
  Sprintf_f :: "64 word \<Rightarrow> string"
  LocalizedSprintf_d :: "int \<Rightarrow> string"
  LocalizedSprintf_f :: "64 word \<Rightarrow> string"
  Sprintf_sharp_v_complex :: "64 word \<Rightarrow> 64 word \<Rightarrow> string"
  Sprintf_sharp_v :: "val \<Rightarrow> string"
  TimeOf :: "val \<Rightarrow> int \<times> nat \<times> nat \<times> nat \<times> nat \<times> nat \<times> string"
  BigIntString :: "val \<Rightarrow> string"
  BigFloatString :: "val \<Rightarrow> string"
  PrettyPrint :: "Printer \<Rightarrow> val \<Rightarrow> string option"

definition indentWidth :: nat where "indentWidth = 4"

definition NewPrinter :: "Value \<Rightarrow> ColorScheme option \<Rightarrow> bool \<Rightarrow> bool \<Rightarrow> bool \<Rightarrow> Printer" where
  "NewPrinter object cs decimalUint' exportedOnly' thousandsSeparator' =
     \<lparr> Buffer = [],
       tw = [],
       depth = 0,
       pvalue = object,
       visited = {},
       colorScheme = cs,
       decimalUint = decimalUint',
       exportedOnly = exportedOnly',
       thousandsSeparator = thousandsSeparator',
       localizedPrinter = thousandsSeparator' \<rparr>"

text \<open>\<open>String()\<close> flushes the tab writer into the buffer and returns the buffer.\<close>

definition Flushed :: "stdlib \<Rightarrow> Printer \<Rightarrow> Printer" where
  "Flushed L p = p\<lparr>Buffer := Buffer p @ Flush L (tw p), tw := []\<rparr>"

definition StringOf :: "stdlib \<Rightarrow> Printer \<Rightarrow> string" where
  "StringOf L p = Buffer (Flushed L p)"

definition IsColoringEnabled :: "Printer \<Rightarrow> bool" where
  "IsColoringEnabled p = (colorScheme p \<noteq> None)"

definition Print :: "Printer \<Rightarrow> string \<Rightarrow> Printer" where
  "Print p text = p\<lparr>tw := tw p @ text\<rparr>"

definition Println :: "Printer \<Rightarrow> string \<Rightarrow> Printer" where
  "Println p text = Print p (text @ [CHR 0x0A])"

definition Indent :: "Printer \<Rightarrow> string" where
  "Indent p = replicate (depth p) (CHR 0x09)"

definition IndentPrint :: "Printer \<Rightarrow> string \<Rightarrow> Printer" where
  "IndentPrint p text = Print p (Indent p @ text)"

definition Colorize :: "Printer \<Rightarrow> string \<Rightarrow> ColorField \<Rightarrow> string" where
  "Colorize p text color =
     (case colorScheme p of Some s \<Rightarrow> ColorizeText text (Get s color) | None \<Rightarrow> text)"

definition ColorPrint :: "Printer \<Rightarrow> string \<Rightarrow> ColorField \<Rightarrow> Printer" where
  "ColorPrint p text color = Print p (Colorize p text color)"

definition nil :: "Printer \<Rightarrow> string" where
  "nil p = Colorize p ''nil'' NilColor"

subsection \<open>Type names\<close>

definition isDigit :: "char \<Rightarrow> bool" where
  "isDigit c = (c \<in> set ''0123456789'')"

text \<open>The three regular expressions of \<open>colorizeType\<close>, on byte strings.\<close>

definition matchSliceType :: "string \<Rightarrow> bool" where
  \<comment> \<open>\<open>^\[\].+$\<close>\<close>
  "matchSliceType t =
     (take 2 t = ''[]'' \<and> drop 2 t \<noteq> [] \<and> CHR 0x0A \<notin> set (drop 2 t))"

definition matchArrayType :: "string \<Rightarrow> bool" where
  \<comment> \<open>\<open>^\[\d+\].+$\<close>\<close>
  "matchArrayType t =
     (let num = takeWhile isDigit (drop 1 t); rest = drop (2 + length num) t
      in take 1 t = ''['' \<and> num \<noteq> [] \<and> take 1 (drop (1 + length num) t) = '']''
         \<and> rest \<noteq> [] \<and> CHR 0x0A \<notin> set rest)"

definition matchQualifiedType :: "string \<Rightarrow> bool" where
  \<comment> \<open>\<open>^[^\.]+\.[^\.]+$\<close>: exactly one dot, neither first nor last\<close>
  "matchQualifiedType t =
     (let a = takeWhile (\<lambda>c. c \<noteq> CHR ''.'') t; b = drop (Suc (length a)) t
      in a \<noteq> [] \<and> length a < length t \<and> b \<noteq> [] \<and> CHR ''.'' \<notin> set b)"

definition colorizeType :: "Printer \<Rightarrow> string \<Rightarrow> string" where
  "colorizeType p t0 =
     (let (prefix1, t1) = (if matchSliceType t0 then (''[]'', drop 2 t0) else ([], t0));
          (prefix2, t2) =
            (if matchArrayType t1
             then (let num = takeWhile isDigit (drop 1 t1)
                   in (''['' @ Colorize p num ObjectLengthColor @ '']'', drop (2 + length num) t1))
             else (prefix1, t1));
          t3 =
            (if matchQualifiedType t2
             then (let ts0 = takeWhile (\<lambda>c. c \<noteq> CHR ''.'') t2; ts1 = drop (Suc (length ts0)) t2
                   in ts0 @ ''.'' @ Colorize p ts1 StructNameColor)
             else Colorize p t2 StructNameColor)
      in prefix2 @ t3)"

definition typeString :: "Printer \<Rightarrow> rtype \<Rightarrow> string" where
  "typeString p t = colorizeType p (tyString t)"

definition pointerAddr :: "Printer \<Rightarrow> addr \<Rightarrow> string" where
  "pointerAddr p a = Colorize p (Sprintf_sharp_v_uint a) PointerAdressColor"

subsection \<open>Scalars: raw\<close>

definition fmtOrLocalizedSprintf_d :: "stdlib \<Rightarrow> Printer \<Rightarrow> int \<Rightarrow> string" where
  "fmtOrLocalizedSprintf_d L p i =
     (if \<not> localizedPrinter p then FormatInt i else LocalizedSprintf_d L i)"

definition fmtOrLocalizedSprintf_f :: "stdlib \<Rightarrow> Printer \<Rightarrow> 64 word \<Rightarrow> string" where
  "fmtOrLocalizedSprintf_f L p x =
     (if \<not> localizedPrinter p then Sprintf_f L x else LocalizedSprintf_f L x)"

definition raw :: "stdlib \<Rightarrow> Printer \<Rightarrow> string outcome" where
  "raw L p =
     (case snd (pvalue p) of
        VBool t b \<Rightarrow> Return (Sprintf_sharp_v_bool b)
      | VInt t i \<Rightarrow> Return (fmtOrLocalizedSprintf_d L p (IntOf i))
      | VUint t u \<Rightarrow>
          (case u of
             U8 w \<Rightarrow>
               Return (if decimalUint p then FormatUint (UintOf u) 10 else Sprintf_0x 2 (UintOf u))
           | U16 w \<Rightarrow>
               Return (if decimalUint p then fmtOrLocalizedSprintf_d L p (int (UintOf u))
                       else Sprintf_0x 4 (UintOf u))
           | U32 w \<Rightarrow>
               Return (if decimalUint p then fmtOrLocalizedSprintf_d L p (int (UintOf u))
                       else Sprintf_0x 8 (UintOf u))
           | U64 w \<Rightarrow>
               Return (if decimalUint p then fmtOrLocalizedSprintf_d L p (int (UintOf u))
                       else Sprintf_0x 16 (UintOf u))
           | _ \<Rightarrow>
               Return (if decimalUint p then fmtOrLocalizedSprintf_d L p (int (UintOf u))
                       else Sprintf_sharp_v_uint (UintOf u)))
      | VFloat t k x \<Rightarrow> Return (fmtOrLocalizedSprintf_f L p x)
      | VComplex t k x y \<Rightarrow> Return (Sprintf_sharp_v_complex L x y)
      | v \<Rightarrow>
          (case Interface (pvalue p) of
             Inl e \<Rightarrow> Panic e
           | Inr d \<Rightarrow> Return (Sprintf_sharp_v L d)))"

subsection \<open>Strings: printString\<close>

text \<open>
  The loop of \<open>printString\<close> over the quoted text.  Reading \<open>quoted[pos+1]\<close> and
  slicing \<open>quoted[pos:pos+n+1]\<close> panic when out of range.
\<close>

definition escapeLen :: "char \<Rightarrow> nat" where
  "escapeLen c =
     (if c = CHR ''x'' then 3
      else if c = CHR ''u'' then 5
      else if c = CHR ''U'' then 9
      else if isDigit c then 3
      else 1)"

function printQuoted :: "Printer \<Rightarrow> string \<Rightarrow> Printer outcome" where
  "printQuoted p quoted =
     (if length quoted > 0 then
        (case IndexByte quoted (CHR 0x5C) of
           None \<Rightarrow> Return (ColorPrint p quoted StringColor)
         | Some pos \<Rightarrow>
             (let p1 = (if pos \<noteq> 0 then ColorPrint p (take pos quoted) StringColor else p)
              in if length quoted \<le> pos + 1 then Panic IndexOutOfRange
                 else
                   (let n = escapeLen (quoted ! (pos + 1))
                    in if length quoted < pos + n + 1 then Panic IndexOutOfRange
                       else printQuoted
                              (ColorPrint p1 (take (n + 1) (drop pos quoted)) EscapedCharColor)
                              (drop (pos + n + 1) quoted))))
      else Return p)"
  by pat_completeness auto
termination
  by (relation "measure (\<lambda>(p, q). length q)") auto

definition printString :: "stdlib \<Rightarrow> Printer \<Rightarrow> Printer outcome" where
  "printString L p =
     (case snd (pvalue p) of
        VString t s \<Rightarrow>
          (let quoted0 = Quote L s
           in if length quoted0 < 2 then Panic IndexOutOfRange
              else
                (let quoted = take (length quoted0 - 2) (drop 1 quoted0);
                     p1 = ColorPrint p [CHR 0x22] StringQuotationColor
                 in andThen (printQuoted p1 quoted)
                      (\<lambda>p2. Return (ColorPrint p2 [CHR 0x22] StringQuotationColor))))
      | _ \<Rightarrow> Panic KindMismatch)"

section \<open>Ordering of map keys (sortedMap, sortMap)\<close>

text \<open>Go's \<open><\<close> on strings: lexicographic on the bytes.\<close>

fun string_lt :: "string \<Rightarrow> string \<Rightarrow> bool" where
  "string_lt [] [] = False"
| "string_lt [] (y # ys) = True"
| "string_lt (x # xs) [] = False"
| "string_lt (x # xs) (y # ys) =
     ((of_char x :: nat) < of_char y \<or> (x = y \<and> string_lt xs ys))"

text \<open>
  Go's \<open>!=\<close> and \<open><\<close> on float64, on IEEE-754 bit patterns: a NaN has all exponent bits
  set and a non-zero mantissa; NaN differs from everything and is below nothing; the
  other values are ordered as their sign and magnitude say, with \<open>-0 = +0\<close>.
\<close>

definition float_magnitude :: "64 word \<Rightarrow> 64 word" where
  "float_magnitude x = x AND 0x7FFFFFFFFFFFFFFF"

definition float_isNaN :: "64 word \<Rightarrow> bool" where
  "float_isNaN x = (float_magnitude x > 0x7FF0000000000000)"

definition float_key :: "64 word \<Rightarrow> int" where
  "float_key x = (if bit x 63 then - uint (float_magnitude x) else uint (float_magnitude x))"

definition float_ne :: "64 word \<Rightarrow> 64 word \<Rightarrow> bool" where
  "float_ne x y = (float_isNaN x \<or> float_isNaN y \<or> float_key x \<noteq> float_key y)"

definition float_lt :: "64 word \<Rightarrow> 64 word \<Rightarrow> bool" where
  "float_lt x y = (\<not> float_isNaN x \<and> \<not> float_isNaN y \<and> float_key x < float_key y)"

text \<open>\<open>sortedMap.Less\<close>, on the two keys \<open>s.keys[i]\<close> and \<open>s.keys[j]\<close>.\<close>

definition Less :: "val \<Rightarrow> val \<Rightarrow> bool" where
  "Less a b =
     (if Type a \<noteq> Type b then False
      else
        (case a of
           VInt ta x \<Rightarrow> (case b of VInt tb y \<Rightarrow> IntOf x < IntOf y | _ \<Rightarrow> False)
         | VUint ta x \<Rightarrow> (case b of VUint tb y \<Rightarrow> UintOf x < UintOf y | _ \<Rightarrow> False)
         | VString ta x \<Rightarrow> (case b of VString tb y \<Rightarrow> string_lt x y | _ \<Rightarrow> False)
         | VFloat ta ka x \<Rightarrow>
             (case b of
                VFloat tb kb y \<Rightarrow> (if float_ne x x \<or> float_ne y y then False else float_lt x y)
              | _ \<Rightarrow> False)
         | VBool ta x \<Rightarrow> (case b of VBool tb y \<Rightarrow> \<not> x \<and> y | _ \<Rightarrow> False)
         | VPtr ta x \<Rightarrow> (case b of VPtr tb y \<Rightarrow> x < y | _ \<Rightarrow> False)
         | VStruct ta x \<Rightarrow> (case b of VStruct tb y \<Rightarrow> length x < length y | _ \<Rightarrow> False)
         | VArray ta x \<Rightarrow> (case b of VArray tb y \<Rightarrow> length x < length y | _ \<Rightarrow> False)
         | _ \<Rightarrow> False))"

text \<open>
  \<open>sort.Stable\<close> of the standard library, on the entries (key and value are swapped
  together).  It is modelled by the insertion sort the library runs on every block of
  up to 20 entries: entry \<open>i\<close> moves left as long as it is less than its left neighbour
  (\<open>for j := i; j > a && data.Less(j, j-1); j-- { data.Swap(j, j-1) }\<close>).  \<open>sink\<close> works
  on the sorted prefix in reverse order.
\<close>

fun sink :: "('a \<Rightarrow> 'a \<Rightarrow> bool) \<Rightarrow> 'a \<Rightarrow> 'a list \<Rightarrow> 'a list" where
  "sink lt x [] = [x]"
| "sink lt x (y # ys) = (if lt x y then y # sink lt x ys else x # y # ys)"

definition Stable :: "('a \<Rightarrow> 'a \<Rightarrow> bool) \<Rightarrow> 'a list \<Rightarrow> 'a list" where
  "Stable lt xs = rev (foldl (\<lambda>acc x. sink lt x acc) [] xs)"

definition entryLess :: "val \<times> val \<Rightarrow> val \<times> val \<Rightarrow> bool" where
  "entryLess e1 e2 = Less (fst e1) (fst e2)"

definition sortMap :: "heap \<Rightarrow> val \<Rightarrow> (val \<times> val) list outcome" where
  "sortMap h v =
     (case v of
        VMap t a \<Rightarrow> Return (Stable entryLess (MapEntries h a))
      | _ \<Rightarrow> Panic KindMismatch)"

section \<open>Zero values (valueIsZero)\<close>

fun valueIsZero :: "val \<Rightarrow> bool" where
  "valueIsZero (VBool t b) = (\<not> b)"
| "valueIsZero (VInt t i) = (IntOf i = 0)"
| "valueIsZero (VUint t u) = (UintOf u = 0)"
| "valueIsZero (VFloat t k x) = (x = 0)"
| "valueIsZero (VComplex t k x y) = (x = 0 \<and> y = 0)"
| "valueIsZero (VArray t xs) = list_all valueIsZero xs"
| "valueIsZero (VChan t a) = (a = 0)"
| "valueIsZero (VFunc t a) = (a = 0)"
| "valueIsZero (VInterface t x) = (x = VInvalid)"
| "valueIsZero (VMap t a) = (a = 0)"
| "valueIsZero (VPtr t a) = (a = 0)"
| "valueIsZero (VSlice t a n) = (a = 0)"
| "valueIsZero (VUnsafePointer t a) = (a = 0)"
| "valueIsZero (VString t s) = (length s = 0)"
| "valueIsZero (VStruct t fs) = list_all (\<lambda>f. valueIsZero (snd f)) fs"
| "valueIsZero VInvalid = False"

section \<open>Containers\<close>

text \<open>
  The print functions call \<open>p.Format\<close> on what a container holds.  In the model they
  take that function as the parameter \<open>F\<close>: it returns the text and the calling
  printer, whose visited set the call may have extended.
\<close>

type_synonym formatter = "Printer \<Rightarrow> Value \<Rightarrow> (string \<times> Printer) outcome"

fun forEach :: "('a \<Rightarrow> Printer \<Rightarrow> Printer outcome) \<Rightarrow> 'a list \<Rightarrow> Printer \<Rightarrow> Printer outcome" where
  "forEach body [] p = Return p"
| "forEach body (x # xs) p = andThen (body x p) (forEach body xs)"

definition indentedBegin :: "Printer \<Rightarrow> Printer" where
  "indentedBegin p = p\<lparr>depth := depth p + 1\<rparr>"

definition indentedEnd :: "Printer \<Rightarrow> Printer" where
  "indentedEnd p = p\<lparr>depth := depth p - 1\<rparr>"

subsection \<open>printMap\<close>

definition printMapEntry :: "formatter \<Rightarrow> bool \<Rightarrow> val \<times> val \<Rightarrow> Printer \<Rightarrow> Printer outcome" where
  "printMapEntry F ro e p =
     andThen (F p (ro, fst e)) (\<lambda>(ks, p1).
     andThen (F p1 (ro, snd e)) (\<lambda>(vs, p2).
       Return (IndentPrint p2 (ks @ '':'' @ [CHR 0x09] @ vs @ '','' @ [CHR 0x0A]))))"

definition printMap :: "formatter \<Rightarrow> heap \<Rightarrow> Printer \<Rightarrow> Printer outcome" where
  "printMap F h p =
     (case pvalue p of
        (ro, VMap t a) \<Rightarrow>
          if length (MapEntries h a) = 0 then Return (Print p (typeString p t @ ''{}''))
          else if a \<in> visited p then Return (Print p (typeString p t @ ''{...}''))
          else
            (let p1 = p\<lparr>visited := insert a (visited p)\<rparr>;
                 p2 = Print p1 (typeString p1 t @ ''{'' @ [CHR 0x0A])
             in andThen (sortMap h (VMap t a)) (\<lambda>sorted.
                andThen (forEach (printMapEntry F ro) sorted (indentedBegin p2)) (\<lambda>p3.
                  Return (IndentPrint (indentedEnd p3) ''}''))))
      | _ \<Rightarrow> Panic KindMismatch)"

subsection \<open>printStruct\<close>

definition printTime :: "stdlib \<Rightarrow> Printer \<Rightarrow> Printer" where
  "printTime L p =
     (case TimeOf L (snd (pvalue p)) of
        (year, month, day, hour, minute, second, location) \<Rightarrow>
          Print p
            (Colorize p (FormatInt year) TimeColor @ ''-''
             @ Colorize p (zeroPad 2 (FormatUint month 10)) TimeColor @ ''-''
             @ Colorize p (zeroPad 2 (FormatUint day 10)) TimeColor @ '' ''
             @ Colorize p (zeroPad 2 (FormatUint hour 10)) TimeColor @ '':''
             @ Colorize p (zeroPad 2 (FormatUint minute 10)) TimeColor @ '':''
             @ Colorize p (zeroPad 2 (FormatUint second 10)) TimeColor @ '' ''
             @ Colorize p location TimeColor))"

text \<open>The first loop of \<open>printStruct\<close>: whether field \<open>i\<close> is appended to \<open>fields\<close>.\<close>

definition keepField :: "Printer \<Rightarrow> StructField \<times> val \<Rightarrow> bool" where
  "keepField p fv =
     (case fv of (field, v) \<Rightarrow>
        if exportedOnly p \<and> PkgPath field \<noteq> [] then False
        else if TagGet_pp field \<noteq> [] then
          (let parts = Split (TagGet_pp field) (CHR '','')
           in if length parts = 2 \<and> parts ! 1 = ''omitempty'' \<and> valueIsZero v then False
              else if parts ! 0 = ''-'' then False
              else True)
        else True)"

text \<open>The name a field is printed under.\<close>

definition fieldNameOf :: "StructField \<Rightarrow> string" where
  "fieldNameOf field =
     (if TagGet_pp field \<noteq> [] then
        (let tagName = Split (TagGet_pp field) (CHR '','')
         in if tagName ! 0 \<noteq> [] then tagName ! 0 else Name field)
      else Name field)"

definition printField :: "formatter \<Rightarrow> bool \<Rightarrow> StructField \<times> val \<Rightarrow> Printer \<Rightarrow> Printer outcome" where
  "printField F ro fv p =
     (case fv of (field, v) \<Rightarrow>
        (let colorizedFieldName = Colorize p (fieldNameOf field) FieldNameColor
         in andThen (F p (ro \<or> PkgPath field \<noteq> [], v)) (\<lambda>(s, p1).
              Return (IndentPrint p1
                (colorizedFieldName @ '':'' @ [CHR 0x09] @ s @ '','' @ [CHR 0x0A])))))"

definition printStruct :: "formatter \<Rightarrow> stdlib \<Rightarrow> Printer \<Rightarrow> Printer outcome" where
  "printStruct F L p =
     (case pvalue p of
        (ro, VStruct t fs) \<Rightarrow>
          if \<not> ro \<and> tyString t = ''time.Time'' \<and> tyPkgPath t = ''time''
          then Return (printTime L p)
          else if \<not> ro \<and> tyString t = ''big.Int'' then
            (if tyPkgPath t = ''math/big''
             then Return (Print p (Colorize p (BigIntString L (VStruct t fs)) IntegerColor))
             else Panic TypeAssertion)
          else if \<not> ro \<and> tyString t = ''big.Float'' then
            (if tyPkgPath t = ''math/big''
             then Return (Print p (Colorize p (BigFloatString L (VStruct t fs)) FloatColor))
             else Panic TypeAssertion)
          else
            (let fields = filter (keepField p) fs
             in if length fields = 0 then Return (Print p (typeString p t @ ''{}''))
                else
                  andThen (forEach (printField F ro) fields
                             (indentedBegin (Println p (typeString p t @ ''{'')))) (\<lambda>p1.
                    Return (IndentPrint (indentedEnd p1) ''}'')))
      | _ \<Rightarrow> Panic KindMismatch)"

subsection \<open>printSlice\<close>

text \<open>\<open>stringGroupSize\<close>: the length of the longest string.\<close>

definition stringGroupSize :: "string list \<Rightarrow> nat" where
  "stringGroupSize ss = foldl (\<lambda>mx s. if length s > mx then length s else mx) 0 ss"

text \<open>
  The type assertion \<open>i.([]string)\<close>: it holds for the unnamed slice type \<open>[]string\<close>
  only, the one type whose \<open>String()\<close> is \<open>[]string\<close>.
\<close>

definition stringsOf :: "val list \<Rightarrow> string list" where
  "stringsOf xs = map (\<lambda>e. case e of VString ts s \<Rightarrow> s | _ \<Rightarrow> []) xs"

definition assertStringSlice :: "heap \<Rightarrow> val \<Rightarrow> panic + string list" where
  "assertStringSlice h v =
     (case v of
        VSlice t a n \<Rightarrow>
          if tyString t = ''[]string'' then Inr (stringsOf (SliceElems h a n))
          else Inl TypeAssertion
      | _ \<Rightarrow> Inl TypeAssertion)"

definition groupSizeOf :: "heap \<Rightarrow> Value \<Rightarrow> rtype \<Rightarrow> nat outcome" where
  "groupSizeOf h rv t =
     (case tyElemKind t of
        KUint8 \<Rightarrow> Return 16
      | KUint16 \<Rightarrow> Return 8
      | KUint32 \<Rightarrow> Return 8
      | KUint64 \<Rightarrow> Return 4
      | KString \<Rightarrow>
          (case Interface rv of
             Inl e \<Rightarrow> Panic e
           | Inr d \<Rightarrow>
               (case assertStringSlice h d of
                  Inl e \<Rightarrow> Panic e
                | Inr ss \<Rightarrow>
                    if stringGroupSize ss = 0 then Panic DivideByZero
                    else Return (36 div stringGroupSize ss)))
      | _ \<Rightarrow> Return 0)"

definition printInlineElem :: "formatter \<Rightarrow> bool \<Rightarrow> val \<Rightarrow> Printer \<Rightarrow> Printer outcome" where
  "printInlineElem F ro e p =
     andThen (F p (ro, e)) (\<lambda>(s, p1). Return (Print p1 ('', '' @ s)))"

definition printGroupedElem ::
  "formatter \<Rightarrow> bool \<Rightarrow> nat \<Rightarrow> nat \<Rightarrow> nat \<times> val \<Rightarrow> Printer \<Rightarrow> Printer outcome" where
  "printGroupedElem F ro groupSize len ie p =
     (case ie of (i, e) \<Rightarrow>
        (let p1 = (if i mod groupSize = 0 then Print p (Indent p) else p)
         in andThen (F p1 (ro, e)) (\<lambda>(s, p2).
              (let p3 = Print p2 (s @ '','')
               in Return (if (i + 1) mod groupSize = 0 \<or> i + 1 = len
                          then Print p3 [CHR 0x0A] else Print p3 '' '')))))"

definition printLineElem :: "formatter \<Rightarrow> bool \<Rightarrow> val \<Rightarrow> Printer \<Rightarrow> Printer outcome" where
  "printLineElem F ro e p =
     andThen (F p (ro, e)) (\<lambda>(s, p1). Return (IndentPrint p1 (s @ '','' @ [CHR 0x0A])))"

definition printElems ::
  "formatter \<Rightarrow> heap \<Rightarrow> Printer \<Rightarrow> rtype \<Rightarrow> val list \<Rightarrow> Printer outcome" where
  "printElems F h p t elems =
     (let ro = fst (pvalue p)
      in andThen (groupSizeOf h (pvalue p) t) (\<lambda>groupSize.
           if length elems < groupSize then
             (case elems of
                [] \<Rightarrow> Panic IndexOutOfRange
              | e0 # es \<Rightarrow>
                  andThen (F (Print p ''{'') (ro, e0)) (\<lambda>(s, p1).
                  andThen (forEach (printInlineElem F ro) es (Print p1 s)) (\<lambda>p2.
                    Return (Print p2 ''}''))))
           else
             andThen
               (if groupSize > 0
                then forEach (printGroupedElem F ro groupSize (length elems))
                       (zip [0..<length elems] elems) (indentedBegin (Println p ''{''))
                else forEach (printLineElem F ro) elems (indentedBegin (Println p ''{'')))
               (\<lambda>p1. Return (IndentPrint (indentedEnd p1) ''}''))))"

definition printSlice :: "formatter \<Rightarrow> heap \<Rightarrow> Printer \<Rightarrow> Printer outcome" where
  "printSlice F h p =
     (case snd (pvalue p) of
        VSlice t a n \<Rightarrow>
          if a = 0 then Return (Print p (typeString p t @ ''('' @ nil p @ '')''))
          else if length (SliceElems h a n) = 0 then Return (Print p (typeString p t @ ''{}''))
          else if a \<in> visited p then Return (Print p (typeString p t @ ''{...}''))
          else
            (let p1 = p\<lparr>visited := insert a (visited p)\<rparr>
             in if length (SliceElems h a n) > 1024
                then Return (Print p1 (typeString p1 t @ ''{...}''))
                else printElems F h p1 t (SliceElems h a n))
      | VArray t xs \<Rightarrow>
          if length xs = 0 then Return (Print p (typeString p t @ ''{}''))
          else if length xs > 1024 then Return (Print p (typeString p t @ ''{...}''))
          else printElems F h p t xs
      | _ \<Rightarrow> Panic KindMismatch)"

subsection \<open>printInterface and printPtr\<close>

definition printInterface :: "formatter \<Rightarrow> Printer \<Rightarrow> Printer outcome" where
  "printInterface F p =
     (case pvalue p of
        (ro, VInterface t e) \<Rightarrow>
          if Kind e = KInvalid then Return (Print p (nil p))
          else if e \<noteq> VInvalid then andThen (F p (ro, e)) (\<lambda>(s, p1). Return (Print p1 s))
          else Return (Print p (typeString p t @ ''('' @ nil p @ '')''))
      | _ \<Rightarrow> Panic KindMismatch)"

definition printPtr :: "formatter \<Rightarrow> heap \<Rightarrow> Printer \<Rightarrow> Printer outcome" where
  "printPtr F h p =
     (case pvalue p of
        (ro, VPtr t a) \<Rightarrow>
          if a \<in> visited p then
            (case rtypeOf (PtrElem h a) of
               None \<Rightarrow> Panic TypeOnInvalid
             | Some et \<Rightarrow> Return (Print p (''&'' @ typeString p et @ ''{...}'')))
          else
            (let p1 = (if a \<noteq> 0 then p\<lparr>visited := insert a (visited p)\<rparr> else p)
             in if PtrElem h a \<noteq> VInvalid
                then andThen (F p1 (ro, PtrElem h a)) (\<lambda>(s, p2). Return (Print p2 (''&'' @ s)))
                else Return (Print p1 (''('' @ typeString p1 t @ '')('' @ nil p1 @ '')'')))
      | _ \<Rightarrow> Panic KindMismatch)"

section \<open>Format\<close>

text \<open>The switch of \<open>Format\<close> on \<open>pp.value.Kind()\<close>.\<close>

definition printValue :: "formatter \<Rightarrow> stdlib \<Rightarrow> heap \<Rightarrow> Printer \<Rightarrow> Printer outcome" where
  "printValue F L h pp =
     (case Kind (snd (pvalue pp)) of
        KBool \<Rightarrow> andThen (raw L pp) (\<lambda>s. Return (ColorPrint pp s BoolColor))
      | KFloat32 \<Rightarrow> andThen (raw L pp) (\<lambda>s. Return (ColorPrint pp s FloatColor))
      | KFloat64 \<Rightarrow> andThen (raw L pp) (\<lambda>s. Return (ColorPrint pp s FloatColor))
      | KString \<Rightarrow> printString L pp
      | KMap \<Rightarrow> printMap F h pp
      | KStruct \<Rightarrow> printStruct F L pp
      | KArray \<Rightarrow> printSlice F h pp
      | KSlice \<Rightarrow> printSlice F h pp
      | KChan \<Rightarrow>
          (case snd (pvalue pp) of
             VChan t a \<Rightarrow>
               Return (Print pp (''('' @ typeString pp t @ '')('' @ pointerAddr pp a @ '')''))
           | _ \<Rightarrow> Panic KindMismatch)
      | KInterface \<Rightarrow> printInterface F pp
      | KPtr \<Rightarrow> printPtr F h pp
      | KFunc \<Rightarrow>
          (case snd (pvalue pp) of
             VFunc t a \<Rightarrow> Return (Print pp (typeString pp t @ '' {...}''))
           | _ \<Rightarrow> Panic KindMismatch)
      | KUnsafePointer \<Rightarrow>
          (case snd (pvalue pp) of
             VUnsafePointer t a \<Rightarrow>
               Return (Print pp (typeString pp t @ ''('' @ pointerAddr pp a @ '')''))
           | _ \<Rightarrow> Panic KindMismatch)
      | KInvalid \<Rightarrow> Return (Print pp (nil pp))
      | _ \<Rightarrow> andThen (raw L pp) (\<lambda>s. Return (ColorPrint pp s IntegerColor)))"

text \<open>
  One call of \<open>Format\<close>: the fresh printer \<open>pp\<close> (\<open>formatPrinter\<close>) shares the visited set with \<open>p\<close> (the
  Go map is shared, so what \<open>pp\<close> adds is added for \<open>p\<close>); the result is \<open>pp.String()\<close>.
\<close>

definition formatPrinter :: "Printer \<Rightarrow> Value \<Rightarrow> Printer" where
  "formatPrinter p object =
     (NewPrinter object (colorScheme p) (decimalUint p) (exportedOnly p) (thousandsSeparator p))
       \<lparr>depth := depth p, visited := visited p\<rparr>"

definition FormatCall :: "formatter \<Rightarrow> stdlib \<Rightarrow> heap \<Rightarrow> Printer \<Rightarrow> Value \<Rightarrow> (string \<times> Printer) outcome" where
  "FormatCall F L h p object =
     (let pp = formatPrinter p object
      in case Interface (pvalue pp) of
           Inl e \<Rightarrow> Panic e
         | Inr d \<Rightarrow>
             andThen
               (case (if d = VInvalid then None else PrettyPrint L pp d) of
                  Some text \<Rightarrow> Return (Print pp text)
                | None \<Rightarrow> printValue F L h pp)
               (\<lambda>pp1. Return (StringOf L pp1, p\<lparr>visited := visited pp1\<rparr>)))"

text \<open>
  \<open>Format\<close> calls itself through the print functions, on values that may be cyclic.
  The model counts the nesting of calls down from a fuel; a call that would nest deeper
  gives \<open>OutOfFuel\<close>.
\<close>

primrec Format :: "nat \<Rightarrow> stdlib \<Rightarrow> heap \<Rightarrow> Printer \<Rightarrow> Value \<Rightarrow> (string \<times> Printer) outcome" where
  "Format 0 L h = (\<lambda>p object. OutOfFuel)"
| "Format (Suc n) L h = FormatCall (Format n L h) L h"

section \<open>The libraries on plain ASCII text\<close>

text \<open>
  For evaluating the printer on concrete values: models of the library functions that
  the examples below go through, for ASCII text without vertical tabs, form feeds and
  the tab writer's escape byte.  The other library functions are left unspecified.
\<close>

subsection \<open>text/tabwriter with minwidth 4, tabwidth 0, padding 1, padchar blank, no flags\<close>

text \<open>
  A line is its list of cells: the text is cut at tabs, and the last cell is the text
  after the last tab.  Tab-terminated cells in the same column of consecutive lines form
  a column block, as wide as its widest cell plus the padding and at least \<open>minwidth\<close>;
  the last cell of a line belongs to no column.
\<close>

definition writeLine :: "nat list \<Rightarrow> string list \<Rightarrow> string" where
  "writeLine widths line =
     concat (map (\<lambda>(j, c).
        if j < length widths then c @ replicate (widths ! j - length c) (CHR '' '') else c)
       (zip [0..<length line] line))"

definition columnWidth :: "nat \<Rightarrow> string list list \<Rightarrow> nat" where
  "columnWidth column block =
     foldl (\<lambda>w line. max w (length (line ! column) + 1)) 4 block"

function formatLines :: "nat list \<Rightarrow> string list list \<Rightarrow> string list" where
  "formatLines widths [] = []"
| "formatLines widths (line # lines) =
     (if length line \<le> Suc (length widths)
      then writeLine widths line # formatLines widths lines
      else
        (let block = line # takeWhile (\<lambda>l. Suc (length widths) < length l) lines;
             rest = dropWhile (\<lambda>l. Suc (length widths) < length l) lines
         in formatLines (widths @ [columnWidth (length widths) block]) block
            @ formatLines widths rest))"
  by pat_completeness auto
termination
proof (relation "measure (\<lambda>(ws, ls). sum_list (map (\<lambda>l. length l - length ws) ls) + length ls)",
    goal_cases)
  case 1
  show ?case by simp
next
  case (2 widths line lines)
  show ?case by simp
next
  case (3 widths line lines x xa)
  have "sum_list (map (\<lambda>l. length l - Suc (length widths)) (takeWhile (\<lambda>l. Suc (length widths) < length l) lines))
        \<le> sum_list (map (\<lambda>l. length l - length widths) lines)" (is "?a \<le> ?b")
  proof -
    have "?a \<le> sum_list (map (\<lambda>l. length l - length widths) (takeWhile (\<lambda>l. Suc (length widths) < length l) lines))"
      by (rule sum_list_mono) simp
    also have "\<dots> \<le> sum_list (map (\<lambda>l. length l - length widths)
                 (takeWhile (\<lambda>l. Suc (length widths) < length l) lines
                  @ dropWhile (\<lambda>l. Suc (length widths) < length l) lines))"
      by (simp del: takeWhile_dropWhile_id)
    finally show ?thesis by simp
  qed
  moreover have "length (takeWhile (\<lambda>l. Suc (length widths) < length l) lines) \<le> length lines"
    by (rule length_takeWhile_le)
  ultimately show ?case using 3 by simp
next
  case (4 widths line lines x xa)
  have "sum_list (map (\<lambda>l. length l - length widths) (dropWhile (\<lambda>l. Suc (length widths) < length l) lines))
        \<le> sum_list (map (\<lambda>l. length l - length widths)
                 (takeWhile (\<lambda>l. Suc (length widths) < length l) lines
                  @ dropWhile (\<lambda>l. Suc (length widths) < length l) lines))"
    by (simp del: takeWhile_dropWhile_id)
  moreover have "length (dropWhile (\<lambda>l. Suc (length widths) < length l) lines) \<le> length lines"
    by (rule length_dropWhile_le)
  ultimately show ?case using 4 by simp
qed

text \<open>
  The writer emits what it has buffered after every line that has a single cell, and at
  the final flush; the cells after a final tab of the text form no cell of their own
  when they are empty.
\<close>

fun blocksOf :: "string list list \<Rightarrow> string list list \<Rightarrow> string list list list" where
  "blocksOf acc [] = [rev acc]"
| "blocksOf acc (line # lines) =
     (if lines \<noteq> [] \<and> length line = 1 then rev (line # acc) # blocksOf [] lines
      else blocksOf (line # acc) lines)"

definition lastCells :: "string \<Rightarrow> string list" where
  "lastCells s =
     (let cs = Split s (CHR 0x09) in if last cs = [] then butlast cs else cs)"

definition tabwriterFlush :: "string \<Rightarrow> string" where
  "tabwriterFlush text =
     (let segs = Split text (CHR 0x0A);
          lines = map (\<lambda>s. Split s (CHR 0x09)) (butlast segs) @ [lastCells (last segs)];
          out = concat (map (formatLines []) (blocksOf [] lines))
      in concat (map (\<lambda>l. l @ [CHR 0x0A]) (butlast out)) @ last out)"

subsection \<open>strconv.Quote on ASCII\<close>

definition quoteByte :: "char \<Rightarrow> string" where
  "quoteByte c =
     (if c = CHR 0x22 then [CHR 0x5C, CHR 0x22]
      else if c = CHR 0x5C then [CHR 0x5C, CHR 0x5C]
      else if c = CHR 0x07 then [CHR 0x5C, CHR ''a'']
      else if c = CHR 0x08 then [CHR 0x5C, CHR ''b'']
      else if c = CHR 0x0C then [CHR 0x5C, CHR ''f'']
      else if c = CHR 0x0A then [CHR 0x5C, CHR ''n'']
      else if c = CHR 0x0D then [CHR 0x5C, CHR ''r'']
      else if c = CHR 0x09 then [CHR 0x5C, CHR ''t'']
      else if c = CHR 0x0B then [CHR 0x5C, CHR ''v'']
      else if (of_char c :: nat) < 0x20 \<or> (of_char c :: nat) \<ge> 0x7F
      then [CHR 0x5C, CHR ''x''] @ zeroPad 2 (FormatUint (of_char c) 16)
      else [c])"

definition quoteASCII :: "string \<Rightarrow> string" where
  "quoteASCII s = [CHR 0x22] @ concat (map quoteByte s) @ [CHR 0x22]"

subsection \<open>The English message printer on integers\<close>

text \<open>Digits in groups of three, separated by commas.\<close>

fun groupThousands :: "string \<Rightarrow> string" where
  "groupThousands ds =
     (if length ds \<le> 3 then ds
      else groupThousands (take (length ds - 3) ds) @ '','' @ drop (length ds - 3) ds)"

definition groupedDecimal :: "int \<Rightarrow> string" where
  "groupedDecimal i =
     (if i < 0 then ''-'' @ groupThousands (FormatUint (nat (- i)) 10)
      else groupThousands (FormatUint (nat i) 10))"

definition asciilib :: stdlib where
  "asciilib =
     \<lparr> Flush = tabwriterFlush,
       Quote = quoteASCII,
       Sprintf_f = undefined,
       LocalizedSprintf_d = groupedDecimal,
       LocalizedSprintf_f = undefined,
       Sprintf_sharp_v_complex = undefined,
       Sprintf_sharp_v = undefined,
       TimeOf = undefined,
       BigIntString = undefined,
       BigFloatString = undefined,
       PrettyPrint = (\<lambda>q v. None) \<rparr>"

section \<open>Properties of formatters\<close>

text \<open>
  A formatter only extends the visited set of the printer it is called on, and changes
  nothing else of it.
\<close>

definition grows :: "formatter \<Rightarrow> bool" where
  "grows F =
     (\<forall>p v s p'. F p v = Return (s, p') \<longrightarrow>
        p' = p\<lparr>visited := visited p'\<rparr> \<and> visited p \<subseteq> visited p')"

text \<open>
  \<open>G\<close> agrees with \<open>F\<close> wherever \<open>F\<close> does not run out of fuel (as \<open>Format\<close> with more
  fuel agrees with \<open>Format\<close> with less).
\<close>

definition fuelLe :: "formatter \<Rightarrow> formatter \<Rightarrow> bool" where
  "fuelLe F G = (\<forall>p v. F p v \<noteq> OutOfFuel \<longrightarrow> G p v = F p v)"

section \<open>Reading digits back\<close>

text \<open>A text of exactly \<open>k\<close> hexadecimal digits, and the number a digit string denotes.\<close>

definition hexDigits :: "nat \<Rightarrow> string \<Rightarrow> bool" where
  "hexDigits k ds = (length ds = k \<and> set ds \<subseteq> set ''0123456789abcdef'')"

definition digitValue :: "char \<Rightarrow> nat" where
  "digitValue c = length (takeWhile (\<lambda>x. x \<noteq> c) ''0123456789abcdef'')"

definition digitsValue :: "nat \<Rightarrow> string \<Rightarrow> nat" where
  "digitsValue b ds = foldl (\<lambda>a c. a * b + digitValue c) 0 ds"

section \<open>Example values\<close>

definition tUint8 :: rtype where
  "tUint8 = \<lparr>tyString = ''uint8'', tyPkgPath = [], tyElemKind = KInvalid\<rparr>"

definition tUint16 :: rtype where
  "tUint16 = \<lparr>tyString = ''uint16'', tyPkgPath = [], tyElemKind = KInvalid\<rparr>"

definition tInt16 :: rtype where
  "tInt16 = \<lparr>tyString = ''int16'', tyPkgPath = [], tyElemKind = KInvalid\<rparr>"

definition tInt :: rtype where
  "tInt = \<lparr>tyString = ''int'', tyPkgPath = [], tyElemKind = KInvalid\<rparr>"

definition tString :: rtype where
  "tString = \<lparr>tyString = ''string'', tyPkgPath = [], tyElemKind = KInvalid\<rparr>"

text \<open>
  Printers as \<open>NewPrinter("", nil, decimalUint, exportedOnly, thousandsSeparator)\<close>
  makes them, and an empty heap.
\<close>

definition printerOf :: "bool \<Rightarrow> bool \<Rightarrow> bool \<Rightarrow> Printer" where
  "printerOf d e s = NewPrinter (False, VString tString []) None d e s"

definition emptyHeap :: heap where
  "emptyHeap = \<lparr>mapData = [], sliceData = [], ptrData = []\<rparr>"

definition tIntPtr :: rtype where
  "tIntPtr = \<lparr>tyString = ''*int'', tyPkgPath = [], tyElemKind = KInvalid\<rparr>"

definition tStringSlice :: rtype where
  "tStringSlice = \<lparr>tyString = ''[]string'', tyPkgPath = [], tyElemKind = KString\<rparr>"

definition tByteSlice :: rtype where
  "tByteSlice = \<lparr>tyString = ''[]uint8'', tyPkgPath = [], tyElemKind = KUint8\<rparr>"

definition tInt16Slice :: rtype where
  "tInt16Slice = \<lparr>tyString = ''[]int16'', tyPkgPath = [], tyElemKind = KInt16\<rparr>"

text \<open>\<open>type T struct { x int }\<close> of package main, and the value \<open>T{x: 1}\<close>.\<close>

definition tT :: rtype where
  "tT = \<lparr>tyString = ''main.T'', tyPkgPath = ''main'', tyElemKind = KInvalid\<rparr>"

definition fieldx :: StructField where
  "fieldx = \<lparr>Name = ''x'', PkgPath = ''main'', TagGet_pp = []\<rparr>"

definition structT :: val where
  "structT = VStruct tT [(fieldx, VInt tInt (I 1))]"

text \<open>
  A heap with: at 1 the target of a \<open>*int\<close>; at 2 the backing store of
  \<open>[]string{""}\<close>; at 3 that of \<open>[]string{"ab", "abcd"}\<close>; at 4 a store of 1025 bytes;
  at 5 the bytes 0 to 19; at 6 twenty int16.
\<close>

definition exampleHeap :: heap where
  "exampleHeap =
     \<lparr> mapData = [],
       sliceData =
         [(2, [VString tString []]),
          (3, [VString tString ''ab'', VString tString ''abcd'']),
          (4, replicate 1025 (VUint tUint8 (U8 0))),
          (5, map (\<lambda>i. VUint tUint8 (U8 (of_nat i))) [0..<20]),
          (6, map (\<lambda>i. VInt tInt16 (I16 (of_nat i))) [0..<20])],
       ptrData = [(1, VInt tInt (I 5))] \<rparr>"

text \<open>The interface type \<open>interface {}\<close> and two keys of a \<open>map[interface {}]string\<close>.\<close>

definition tAny :: rtype where
  "tAny = \<lparr>tyString = ''interface {}'', tyPkgPath = [], tyElemKind = KInvalid\<rparr>"

definition tAnyMap :: rtype where
  "tAnyMap = \<lparr>tyString = ''map[interface {}]string'', tyPkgPath = [], tyElemKind = KInvalid\<rparr>"

definition tIntMap :: rtype where
  "tIntMap = \<lparr>tyString = ''map[int]string'', tyPkgPath = [], tyElemKind = KInvalid\<rparr>"

definition anyOne :: val where "anyOne = VInterface tAny (VInt tInt (I 1))"
definition anyTwo :: val where "anyTwo = VInterface tAny (VInt tInt (I 2))"

text \<open>
  Two heaps that hold the same \<open>map[int]string{1: "a", 2: "b"}\<close> at 1, enumerated in
  different orders, and two that hold the same \<open>map[interface {}]string{1: "a", 2: "b"}\<close>.
\<close>

definition intMapHeap :: heap where
  "intMapHeap =
     \<lparr> mapData =
         [(1, [(VInt tInt (I 1), VString tString ''a''), (VInt tInt (I 2), VString tString ''b'')])],
       sliceData = [],
       ptrData = [] \<rparr>"

definition intMapHeap' :: heap where
  "intMapHeap' =
     \<lparr> mapData =
         [(1, [(VInt tInt (I 2), VString tString ''b''), (VInt tInt (I 1), VString tString ''a'')])],
       sliceData = [],
       ptrData = [] \<rparr>"

definition anyMapHeap :: heap where
  "anyMapHeap =
     \<lparr> mapData = [(1, [(anyOne, VString tString ''a''), (anyTwo, VString tString ''b'')])],
       sliceData = [],
       ptrData = [] \<rparr>"

definition anyMapHeap' :: heap where
  "anyMapHeap' =
     \<lparr> mapData = [(1, [(anyTwo, VString tString ''b''), (anyOne, VString tString ''a'')])],
       sliceData = [],
       ptrData = [] \<rparr>"

text \<open>
  A heap of containers that hold themselves: at 1 a \<open>map[string]interface {}\<close> with
  \<open>m["self"] = m\<close>; at 2 the store of an \<open>[]interface {}\<close> with \<open>s[0] = s\<close>; at 3 a
  \<open>Node\<close> of \<open>type Node struct { Next *Node }\<close> with \<open>n.Next = n\<close>.
\<close>

definition tSelfMap :: rtype where
  "tSelfMap = \<lparr>tyString = ''map[string]interface {}'', tyPkgPath = [], tyElemKind = KInterface\<rparr>"

definition tAnySlice :: rtype where
  "tAnySlice = \<lparr>tyString = ''[]interface {}'', tyPkgPath = [], tyElemKind = KInterface\<rparr>"

definition tNode :: rtype where
  "tNode = \<lparr>tyString = ''main.Node'', tyPkgPath = ''main'', tyElemKind = KInvalid\<rparr>"

definition tNodePtr :: rtype where
  "tNodePtr = \<lparr>tyString = ''*main.Node'', tyPkgPath = [], tyElemKind = KStruct\<rparr>"

definition fieldNext :: StructField where
  "fieldNext = \<lparr>Name = ''Next'', PkgPath = [], TagGet_pp = []\<rparr>"

definition cyclicHeap :: heap where
  "cyclicHeap =
     \<lparr> mapData = [(1, [(VString tString ''self'', VInterface tAny (VMap tSelfMap 1))])],
       sliceData = [(2, [VInterface tAny (VSlice tAnySlice 2 1)])],
       ptrData = [(3, VStruct tNode [(fieldNext, VPtr tNodePtr 3)])] \<rparr>"









section \<open>Basic facts\<close>

declare printQuoted.simps [simp del]
declare FormatUint.simps [simp del]
declare formatLines.simps [simp del]
declare groupThousands.simps [simp del]

lemma andThen_Return_iff:
  "(andThen m f = Return r) = (\<exists>x. m = Return x \<and> f x = Return r)"
  by (cases m) auto

lemma andThen_OutOfFuel_iff:
  "(andThen m f = OutOfFuel) = (m = OutOfFuel \<or> (\<exists>x. m = Return x \<and> f x = OutOfFuel))"
  by (cases m) auto

lemma forEach_visited:
  assumes "\<And>x p p'. x \<in> set xs \<Longrightarrow> body x p = Return p' \<Longrightarrow> visited p \<subseteq> visited p'"
    and "forEach body xs p = Return p'"
  shows "visited p \<subseteq> visited p'"
  using assms
proof (induction xs arbitrary: p)
  case Nil
  then show ?case by simp
next
  case (Cons x xs)
  from Cons.prems(2) obtain p1 where b: "body x p = Return p1" and r: "forEach body xs p1 = Return p'"
    by (auto simp: andThen_Return_iff)
  have "visited p \<subseteq> visited p1" using Cons.prems(1)[of x p p1] b by simp
  moreover have "visited p1 \<subseteq> visited p'"
  proof (rule Cons.IH[OF _ r])
    fix y q q' assume "y \<in> set xs" "body y q = Return q'"
    then show "visited q \<subseteq> visited q'" using Cons.prems(1)[of y q q'] by simp
  qed
  ultimately show ?case by blast
qed

lemma visited_Print [simp]: "visited (Print p s) = visited p"
  by (simp add: Print_def)
lemma visited_Println [simp]: "visited (Println p s) = visited p"
  by (simp add: Println_def)
lemma visited_IndentPrint [simp]: "visited (IndentPrint p s) = visited p"
  by (simp add: IndentPrint_def)
lemma visited_ColorPrint [simp]: "visited (ColorPrint p s c) = visited p"
  by (simp add: ColorPrint_def)
lemma visited_indentedBegin [simp]: "visited (indentedBegin p) = visited p"
  by (simp add: indentedBegin_def)
lemma visited_indentedEnd [simp]: "visited (indentedEnd p) = visited p"
  by (simp add: indentedEnd_def)

lemma growsD:
  "grows F \<Longrightarrow> F p v = Return (s, p') \<Longrightarrow> visited p \<subseteq> visited p'"
  unfolding grows_def by blast

lemma printMapEntry_visited:
  assumes "grows F" "printMapEntry F ro e p = Return p'"
  shows "visited p \<subseteq> visited p'"
proof -
  from assms(2) obtain ks p1 vs p2 where
    a: "F p (ro, fst e) = Return (ks, p1)" and b: "F p1 (ro, snd e) = Return (vs, p2)"
    and c: "visited p' = visited p2"
    by (auto simp: printMapEntry_def andThen_Return_iff)
  show ?thesis using growsD[OF assms(1) a] growsD[OF assms(1) b] c by blast
qed

lemma printField_visited:
  assumes "grows F" "printField F ro fv p = Return p'"
  shows "visited p \<subseteq> visited p'"
proof -
  obtain field v where fv: "fv = (field, v)" by (cases fv)
  from assms(2) obtain s p1 where
    a: "F p (ro \<or> PkgPath field \<noteq> [], v) = Return (s, p1)" and c: "visited p' = visited p1"
    by (auto simp: printField_def andThen_Return_iff Let_def fv)
  show ?thesis using growsD[OF assms(1) a] c by blast
qed

lemma printInlineElem_visited:
  assumes "grows F" "printInlineElem F ro e p = Return p'"
  shows "visited p \<subseteq> visited p'"
proof -
  from assms(2) obtain s p1 where
    a: "F p (ro, e) = Return (s, p1)" and c: "visited p' = visited p1"
    by (auto simp: printInlineElem_def andThen_Return_iff)
  show ?thesis using growsD[OF assms(1) a] c by blast
qed

lemma printLineElem_visited:
  assumes "grows F" "printLineElem F ro e p = Return p'"
  shows "visited p \<subseteq> visited p'"
proof -
  from assms(2) obtain s p1 where
    a: "F p (ro, e) = Return (s, p1)" and c: "visited p' = visited p1"
    by (auto simp: printLineElem_def andThen_Return_iff)
  show ?thesis using growsD[OF assms(1) a] c by blast
qed

lemma printGroupedElem_visited:
  assumes "grows F" "printGroupedElem F ro g len ie p = Return p'"
  shows "visited p \<subseteq> visited p'"
proof -
  obtain i e where ie: "ie = (i, e)" by (cases ie)
  from assms(2) obtain s p1 p2 where
    a: "F p1 (ro, e) = Return (s, p2)" and b: "visited p1 = visited p" and c: "visited p' = visited p2"
    by (auto simp: printGroupedElem_def andThen_Return_iff Let_def ie split: if_splits)
  show ?thesis using growsD[OF assms(1) a] b c by blast
qed

lemma printQuoted_visited:
  "printQuoted p q = Return p' \<Longrightarrow> visited p' = visited p"
proof (induction p q rule: printQuoted.induct)
  case (1 p quoted)
  show ?case using "1.prems" "1.IH"
    by (subst (asm) printQuoted.simps) (auto simp: Let_def split: if_splits option.splits)
qed

lemma printString_visited:
  "printString L p = Return p' \<Longrightarrow> visited p' = visited p"
  by (auto simp: printString_def Let_def andThen_Return_iff split: val.splits if_splits dest!: printQuoted_visited)

lemma printMap_visited:
  assumes "grows F" "printMap F h p = Return p'"
  shows "visited p \<subseteq> visited p'"
proof -
  obtain ro v where pv: "pvalue p = (ro, v)" by (cases "pvalue p")
  show ?thesis
  proof (cases v)
    case (VMap t a)
    show ?thesis
    proof (cases "length (MapEntries h a) = 0 \<or> a \<in> visited p")
      case True
      then show ?thesis using assms(2) pv VMap
        by (auto simp: printMap_def split: if_splits)
    next
      case False
      with assms(2) pv VMap obtain p3 where
        f: "forEach (printMapEntry F ro) (Stable entryLess (MapEntries h a))
             (indentedBegin (Print (p\<lparr>visited := insert a (visited p)\<rparr>)
                (typeString (p\<lparr>visited := insert a (visited p)\<rparr>) t @ ''{'' @ [CHR 0x0A]))) = Return p3"
        and e: "visited p' = visited p3"
        by (auto simp: printMap_def Let_def andThen_Return_iff sortMap_def)
      have "insert a (visited p) \<subseteq> visited p3"
        using forEach_visited[OF _ f] printMapEntry_visited[OF assms(1)] by simp
      then show ?thesis using e by blast
    qed
  qed (use assms(2) pv in \<open>auto simp: printMap_def\<close>)
qed

lemma printStruct_visited:
  assumes "grows F" "printStruct F L p = Return p'"
  shows "visited p \<subseteq> visited p'"
proof -
  obtain ro v where pv: "pvalue p = (ro, v)" by (cases "pvalue p")
  show ?thesis
  proof (cases v)
    case (VStruct t fs)
    show ?thesis
    proof (cases "\<exists>p1. forEach (printField F ro) (filter (keepField p) fs)
                     (indentedBegin (Println p (typeString p t @ ''{''))) = Return p1
                  \<and> visited p' = visited p1")
      case True
      then obtain p1 where f: "forEach (printField F ro) (filter (keepField p) fs)
                     (indentedBegin (Println p (typeString p t @ ''{''))) = Return p1"
        and e: "visited p' = visited p1" by blast
      have "visited p \<subseteq> visited p1"
        using forEach_visited[OF _ f] printField_visited[OF assms(1)] by simp
      then show ?thesis using e by simp
    next
      case False
      then show ?thesis using assms(2) pv VStruct
        by (auto simp: printStruct_def Let_def andThen_Return_iff printTime_def split: if_splits prod.splits)
    qed
  qed (use assms(2) pv in \<open>auto simp: printStruct_def\<close>)
qed

lemma printElems_visited:
  assumes "grows F" "printElems F h p t elems = Return p'"
  shows "visited p \<subseteq> visited p'"
proof -
  from assms(2) obtain g where g: "groupSizeOf h (pvalue p) t = Return g"
    and r: "(if length elems < g then
             (case elems of
                [] \<Rightarrow> Panic IndexOutOfRange
              | e0 # es \<Rightarrow>
                  andThen (F (Print p ''{'') (fst (pvalue p), e0)) (\<lambda>(s, p1).
                  andThen (forEach (printInlineElem F (fst (pvalue p))) es (Print p1 s)) (\<lambda>p2.
                    Return (Print p2 ''}''))))
           else
             andThen
               (if g > 0
                then forEach (printGroupedElem F (fst (pvalue p)) g (length elems))
                       (zip [0..<length elems] elems) (indentedBegin (Println p ''{''))
                else forEach (printLineElem F (fst (pvalue p))) elems (indentedBegin (Println p ''{'')))
               (\<lambda>p1. Return (IndentPrint (indentedEnd p1) ''}''))) = Return p'"
    by (auto simp: printElems_def Let_def andThen_Return_iff)
  show ?thesis
  proof (cases "length elems < g")
    case True
    with r obtain e0 es s p1 p2 where
      a: "F (Print p ''{'') (fst (pvalue p), e0) = Return (s, p1)"
      and b: "forEach (printInlineElem F (fst (pvalue p))) es (Print p1 s) = Return p2"
      and c: "visited p' = visited p2"
      by (auto simp: andThen_Return_iff split: list.splits)
    have "visited p \<subseteq> visited p1" using growsD[OF assms(1) a] by simp
    moreover have "visited p1 \<subseteq> visited p2"
      using forEach_visited[OF _ b] printInlineElem_visited[OF assms(1)] by simp
    ultimately show ?thesis using c by blast
  next
    case False
    show ?thesis
    proof (cases "g > 0")
      case True
      with False r obtain p1 where
        b: "forEach (printGroupedElem F (fst (pvalue p)) g (length elems))
                       (zip [0..<length elems] elems) (indentedBegin (Println p ''{'')) = Return p1"
        and c: "visited p' = visited p1"
        by (auto simp: andThen_Return_iff)
      show ?thesis using forEach_visited[OF _ b] printGroupedElem_visited[OF assms(1)] c by simp
    next
      case g0: False
      with False r obtain p1 where
        b: "forEach (printLineElem F (fst (pvalue p))) elems (indentedBegin (Println p ''{'')) = Return p1"
        and c: "visited p' = visited p1"
        by (auto simp: andThen_Return_iff)
      show ?thesis using forEach_visited[OF _ b] printLineElem_visited[OF assms(1)] c by simp
    qed
  qed
qed

lemma printSlice_visited:
  assumes "grows F" "printSlice F h p = Return p'"
  shows "visited p \<subseteq> visited p'"
proof (cases "snd (pvalue p)")
  case (VSlice t a n)
  show ?thesis
  proof (cases "a = 0 \<or> length (SliceElems h a n) = 0 \<or> a \<in> visited p \<or> length (SliceElems h a n) > 1024")
    case True
    then show ?thesis using assms(2) VSlice
      by (auto simp: printSlice_def Let_def split: if_splits)
  next
    case False
    with assms(2) VSlice have
      "printElems F h (p\<lparr>visited := insert a (visited p)\<rparr>) t (SliceElems h a n) = Return p'"
      by (auto simp: printSlice_def Let_def split: if_splits)
    from printElems_visited[OF assms(1) this] show ?thesis by simp
  qed
next
  case (VArray t xs)
  show ?thesis
  proof (cases "length xs = 0 \<or> length xs > 1024")
    case True
    then show ?thesis using assms(2) VArray
      by (auto simp: printSlice_def Let_def split: if_splits)
  next
    case False
    with assms(2) VArray have "printElems F h p t xs = Return p'"
      by (auto simp: printSlice_def Let_def split: if_splits)
    from printElems_visited[OF assms(1) this] show ?thesis by simp
  qed
qed (use assms(2) in \<open>auto simp: printSlice_def\<close>)

lemma printInterface_visited:
  assumes "grows F" "printInterface F p = Return p'"
  shows "visited p \<subseteq> visited p'"
proof -
  obtain ro v where pv: "pvalue p = (ro, v)" by (cases "pvalue p")
  show ?thesis
  proof (cases v)
    case (VInterface t e)
    show ?thesis
    proof (cases "Kind e = KInvalid \<or> e = VInvalid")
      case True
      then show ?thesis using assms(2) pv VInterface
        by (auto simp: printInterface_def split: if_splits)
    next
      case False
      with assms(2) pv VInterface obtain s p1 where
        a: "F p (ro, e) = Return (s, p1)" and c: "visited p' = visited p1"
        by (auto simp: printInterface_def andThen_Return_iff)
      show ?thesis using growsD[OF assms(1) a] c by simp
    qed
  qed (use assms(2) pv in \<open>auto simp: printInterface_def\<close>)
qed

lemma printPtr_visited:
  assumes "grows F" "printPtr F h p = Return p'"
  shows "visited p \<subseteq> visited p'"
proof -
  obtain ro v where pv: "pvalue p = (ro, v)" by (cases "pvalue p")
  show ?thesis
  proof (cases v)
    case (VPtr t a)
    show ?thesis
    proof (cases "a \<in> visited p \<or> PtrElem h a = VInvalid")
      case True
      then show ?thesis using assms(2) pv VPtr
        by (auto simp: printPtr_def Let_def split: if_splits option.splits)
    next
      case False
      with assms(2) pv VPtr obtain s p2 where
        a: "F (if a \<noteq> 0 then p\<lparr>visited := insert a (visited p)\<rparr> else p) (ro, PtrElem h a) = Return (s, p2)"
        and c: "visited p' = visited p2"
        by (auto simp: printPtr_def Let_def andThen_Return_iff)
      show ?thesis using growsD[OF assms(1) a] c by (auto split: if_splits)
    qed
  qed (use assms(2) pv in \<open>auto simp: printPtr_def\<close>)
qed

lemma raw_visited_aux:
  "andThen (raw L p) (\<lambda>s. Return (ColorPrint p s c)) = Return p' \<Longrightarrow> visited p' = visited p"
  by (auto simp: andThen_Return_iff)

lemma printValue_visited:
  assumes "grows F" "printValue F L h p = Return p'"
  shows "visited p \<subseteq> visited p'"
proof (cases "Kind (snd (pvalue p))")
  case KString
  then show ?thesis using assms(2) printString_visited[of L p p'] by (simp add: printValue_def)
next
  case KMap
  then show ?thesis using assms printMap_visited[of F h p p'] by (simp add: printValue_def)
next
  case KStruct
  then show ?thesis using assms printStruct_visited[of F L p p'] by (simp add: printValue_def)
next
  case KArray
  then show ?thesis using assms printSlice_visited[of F h p p'] by (simp add: printValue_def)
next
  case KSlice
  then show ?thesis using assms printSlice_visited[of F h p p'] by (simp add: printValue_def)
next
  case KInterface
  then show ?thesis using assms printInterface_visited[of F p p'] by (simp add: printValue_def)
next
  case KPtr
  then show ?thesis using assms printPtr_visited[of F h p p'] by (simp add: printValue_def)
next
  case KChan
  then show ?thesis using assms(2) by (auto simp: printValue_def split: val.splits)
next
  case KFunc
  then show ?thesis using assms(2) by (auto simp: printValue_def split: val.splits)
next
  case KUnsafePointer
  then show ?thesis using assms(2) by (auto simp: printValue_def split: val.splits)
qed (use assms(2) in \<open>simp_all add: printValue_def andThen_Return_iff, auto\<close>)

lemma formatPrinter_simps [simp]:
  "visited (formatPrinter p v) = visited p"
  "depth (formatPrinter p v) = depth p"
  "pvalue (formatPrinter p v) = v"
  "colorScheme (formatPrinter p v) = colorScheme p"
  "decimalUint (formatPrinter p v) = decimalUint p"
  "exportedOnly (formatPrinter p v) = exportedOnly p"
  "thousandsSeparator (formatPrinter p v) = thousandsSeparator p"
  "localizedPrinter (formatPrinter p v) = thousandsSeparator p"
  "tw (formatPrinter p v) = []"
  "Buffer (formatPrinter p v) = []"
  by (simp_all add: formatPrinter_def NewPrinter_def)

lemma FormatCall_Return:
  assumes "FormatCall F L h p v = Return (s, p')"
  shows "\<exists>d pp1. Interface v = Inr d
    \<and> ((\<exists>text. d \<noteq> VInvalid \<and> PrettyPrint L (formatPrinter p v) d = Some text
            \<and> pp1 = Print (formatPrinter p v) text)
         \<or> printValue F L h (formatPrinter p v) = Return pp1)
    \<and> s = StringOf L pp1 \<and> p' = p\<lparr>visited := visited pp1\<rparr>"
proof (cases "Interface v")
  case (Inl e)
  then show ?thesis using assms by (simp add: FormatCall_def)
next
  case (Inr d)
  with assms have "andThen (case (if d = VInvalid then None else PrettyPrint L (formatPrinter p v) d) of
                  Some text \<Rightarrow> Return (Print (formatPrinter p v) text)
                | None \<Rightarrow> printValue F L h (formatPrinter p v))
               (\<lambda>pp1. Return (StringOf L pp1, p\<lparr>visited := visited pp1\<rparr>)) = Return (s, p')"
    unfolding FormatCall_def Let_def by simp
  then obtain pp1 where
    a: "(case (if d = VInvalid then None else PrettyPrint L (formatPrinter p v) d) of
                  Some text \<Rightarrow> Return (Print (formatPrinter p v) text)
                | None \<Rightarrow> printValue F L h (formatPrinter p v)) = Return pp1"
    and b: "s = StringOf L pp1" "p' = p\<lparr>visited := visited pp1\<rparr>"
    unfolding andThen_Return_iff by auto
  from a have "(\<exists>text. d \<noteq> VInvalid \<and> PrettyPrint L (formatPrinter p v) d = Some text
            \<and> pp1 = Print (formatPrinter p v) text)
         \<or> printValue F L h (formatPrinter p v) = Return pp1"
    by (cases "d = VInvalid"; cases "PrettyPrint L (formatPrinter p v) d") auto
  then show ?thesis using Inr b by blast
qed

lemma FormatCall_grows:
  assumes "grows F"
  shows "grows (FormatCall F L h)"
  unfolding grows_def
proof (intro allI impI)
  fix p v s p'
  assume r: "FormatCall F L h p v = Return (s, p')"
  from r obtain d pp1 where
    a: "(\<exists>text. d \<noteq> VInvalid \<and> PrettyPrint L (formatPrinter p v) d = Some text
            \<and> pp1 = Print (formatPrinter p v) text)
         \<or> printValue F L h (formatPrinter p v) = Return pp1"
    and b: "p' = p\<lparr>visited := visited pp1\<rparr>"
    using FormatCall_Return[OF r] by blast
  have "visited (formatPrinter p v) \<subseteq> visited pp1"
    using a printValue_visited[OF assms, of L h "formatPrinter p v" pp1] by auto
  then show "p' = p\<lparr>visited := visited p'\<rparr> \<and> visited p \<subseteq> visited p'"
    using b by simp
qed

lemma Format_grows: "grows (Format n L h)"
proof (induction n)
  case 0
  show ?case by (simp add: grows_def)
next
  case (Suc n)
  show ?case using FormatCall_grows[OF Suc] by simp
qed

lemma Colorize_formatPrinter [simp]:
  "Colorize (formatPrinter p v) s c = Colorize p s c"
  by (simp add: Colorize_def)

lemma record_visited_id [simp]: "p\<lparr>visited := visited p\<rparr> = p"
  by simp

lemma length_FormatUint_16:
  "0 < k \<Longrightarrow> n < 16 ^ k \<Longrightarrow> length (FormatUint n 16) \<le> k"
proof (induction n "16::nat" arbitrary: k rule: FormatUint.induct)
  case (1 n)
  show ?case
  proof (cases "n < 16")
    case True
    then show ?thesis using "1.prems" by (subst FormatUint.simps) simp
  next
    case False
    then obtain k' where k: "k = Suc k'" "0 < k'"
      using "1.prems" by (cases k; cases "k - 1") auto
    have "n div 16 < 16 ^ k'" using "1.prems" k by (simp add: less_mult_imp_div_less mult.commute)
    from "1.hyps"[OF _ k(2) this] False have "length (FormatUint (n div 16) 16) \<le> k'" by simp
    then show ?thesis using False k by (subst FormatUint.simps) simp
  qed
qed

lemma digit_hex: "d < 16 \<Longrightarrow> digit d \<in> set ''0123456789abcdef''"
  unfolding digit_def by (simp add: nth_mem del: set_simps)

lemma set_FormatUint_16: "set (FormatUint n 16) \<subseteq> set ''0123456789abcdef''"
proof (induction n "16::nat" rule: FormatUint.induct)
  case (1 n)
  show ?case
  proof (cases "n < 16")
    case True
    then show ?thesis using digit_hex[of n] by (subst FormatUint.simps) simp
  next
    case False
    have "digit (n mod 16) \<in> set ''0123456789abcdef''" by (rule digit_hex) simp
    then show ?thesis using False "1.hyps" by (subst FormatUint.simps) simp
  qed
qed

lemma hexDigits_zeroPad:
  assumes "0 < k" "n < 16 ^ k"
  shows "hexDigits k (zeroPad k (FormatUint n 16))"
proof -
  have "length (FormatUint n 16) \<le> k" using assms by (rule length_FormatUint_16)
  moreover have "set (FormatUint n 16) \<subseteq> set ''0123456789abcdef''" by (rule set_FormatUint_16)
  ultimately show ?thesis by (auto simp: hexDigits_def zeroPad_def)
qed

lemma Format_VUint:
  assumes "\<forall>q. PrettyPrint L q (VUint t u) = None"
  shows "Format (Suc n) L h p (False, VUint t u) =
           andThen (raw L (formatPrinter p (False, VUint t u)))
             (\<lambda>s. Return (Flush L (Colorize p s IntegerColor), p))"
proof -
  have k: "printValue (Format n L h) L h (formatPrinter p (False, VUint t u))
     = andThen (raw L (formatPrinter p (False, VUint t u)))
         (\<lambda>s. Return (ColorPrint (formatPrinter p (False, VUint t u)) s IntegerColor))"
    by (cases u) (simp_all add: printValue_def)
  show ?thesis using assms
    by (cases "raw L (formatPrinter p (False, VUint t u))")
       (simp_all add: FormatCall_def Interface_def k StringOf_def Flushed_def ColorPrint_def Print_def)
qed

lemma Format_VInt:
  assumes "\<forall>q. PrettyPrint L q (VInt t i) = None"
  shows "Format (Suc n) L h p (False, VInt t i) =
           andThen (raw L (formatPrinter p (False, VInt t i)))
             (\<lambda>s. Return (Flush L (Colorize p s IntegerColor), p))"
proof -
  have k: "printValue (Format n L h) L h (formatPrinter p (False, VInt t i))
     = andThen (raw L (formatPrinter p (False, VInt t i)))
         (\<lambda>s. Return (ColorPrint (formatPrinter p (False, VInt t i)) s IntegerColor))"
    by (cases i) (simp_all add: printValue_def)
  show ?thesis using assms
    by (cases "raw L (formatPrinter p (False, VInt t i))")
       (simp_all add: FormatCall_def Interface_def k StringOf_def Flushed_def ColorPrint_def Print_def)
qed


lemma digitValue_digit: "d < 16 \<Longrightarrow> digitValue (digit d) = d"
proof -
  have "\<forall>d\<in>{0..<16}. digitValue (digit d) = d" by code_simp
  then show "d < 16 \<Longrightarrow> digitValue (digit d) = d" by simp
qed

lemma digitsValue_snoc: "digitsValue b (ds @ [c]) = digitsValue b ds * b + digitValue c"
  by (simp add: digitsValue_def)

lemma digitsValue_FormatUint:
  "2 \<le> b \<Longrightarrow> b \<le> 16 \<Longrightarrow> digitsValue b (FormatUint n b) = n"
proof (induction n b rule: FormatUint.induct)
  case (1 n b)
  show ?case
  proof (cases "n < b")
    case True
    then show ?thesis using "1.prems" digitValue_digit[of n]
      by (subst FormatUint.simps) (simp add: digitsValue_def)
  next
    case False
    have "digitValue (digit (n mod b)) = n mod b"
      using "1.prems" by (intro digitValue_digit) (simp add: less_le_trans[OF mod_less_divisor])
    then show ?thesis using False "1.prems" "1.IH"
      by (subst FormatUint.simps) (simp add: digitsValue_snoc)
  qed
qed

lemma digitsValue_zeros: "digitsValue b (replicate k (CHR ''0'') @ ds) = digitsValue b ds"
proof -
  have z: "digitValue (CHR ''0'') = 0" by (simp add: digitValue_def)
  have "foldl (\<lambda>a c. a * b + digitValue c) 0 (replicate k (CHR ''0'')) = 0"
    by (induction k) (simp_all add: z)
  then show ?thesis by (simp add: digitsValue_def)
qed

lemma digitsValue_zeroPad:
  "digitsValue 16 (zeroPad k (FormatUint n 16)) = n"
  by (simp add: zeroPad_def digitsValue_zeros digitsValue_FormatUint)

lemma raw_formatPrinter_VUint:
  "raw L (formatPrinter p (False, VUint t u)) =
     Return (case u of
       U8 w \<Rightarrow> (if decimalUint p then FormatUint (unat w) 10 else Sprintf_0x 2 (unat w))
     | U16 w \<Rightarrow> (if decimalUint p
                 then (if thousandsSeparator p then LocalizedSprintf_d L (int (unat w))
                       else FormatUint (unat w) 10)
                 else Sprintf_0x 4 (unat w))
     | U32 w \<Rightarrow> (if decimalUint p
                 then (if thousandsSeparator p then LocalizedSprintf_d L (int (unat w))
                       else FormatUint (unat w) 10)
                 else Sprintf_0x 8 (unat w))
     | U64 w \<Rightarrow> (if decimalUint p
                 then (if thousandsSeparator p then LocalizedSprintf_d L (int (unat w))
                       else FormatUint (unat w) 10)
                 else Sprintf_0x 16 (unat w))
     | U w \<Rightarrow> (if decimalUint p
                 then (if thousandsSeparator p then LocalizedSprintf_d L (int (unat w))
                       else FormatUint (unat w) 10)
                 else Sprintf_sharp_v_uint (unat w))
     | Uptr w \<Rightarrow> (if decimalUint p
                 then (if thousandsSeparator p then LocalizedSprintf_d L (int (unat w))
                       else FormatUint (unat w) 10)
                 else Sprintf_sharp_v_uint (unat w)))"
  by (cases u) (simp_all add: raw_def fmtOrLocalizedSprintf_d_def FormatInt_def)

lemma raw_formatPrinter_VInt:
  "raw L (formatPrinter p (False, VInt t i)) =
     Return (if thousandsSeparator p then LocalizedSprintf_d L (IntOf i) else FormatInt (IntOf i))"
  by (simp add: raw_def fmtOrLocalizedSprintf_d_def)

text \<open>
  C6, amended.  For a value whose type has no \<open>PrettyPrint\<close> method: with
  \<open>decimalUint\<close> off, an unsigned 8/16/32/64-bit integer is rendered as \<open>0x\<close> followed
  by exactly 2/4/8/16 hexadecimal digits that denote its value.  With \<open>decimalUint\<close> on,
  an 8-bit value is rendered in plain decimal; a 16/32/64-bit value is rendered in plain
  decimal when \<open>thousandsSeparator\<close> is off, and by the English message printer when it
  is on.  A signed integer is rendered in decimal whatever \<open>decimalUint\<close> says: plain
  when \<open>thousandsSeparator\<close> is off, by the English message printer when it is on.
  The text goes through the colour of integers and through the tab writer.
\<close>

theorem C6_integer_rendering:
  assumes "\<forall>q. PrettyPrint L q v = None"
  shows
    "(\<forall>t w. v = VUint t (U8 w) \<longrightarrow>
        hexDigits 2 (zeroPad 2 (FormatUint (unat w) 16)) \<and>
        digitsValue 16 (zeroPad 2 (FormatUint (unat w) 16)) = unat w \<and>
        digitsValue 10 (FormatUint (unat w) 10) = unat w \<and>
        Format (Suc n) L h p (False, v) =
          Return (Flush L (Colorize p
            (if decimalUint p then FormatUint (unat w) 10
             else ''0x'' @ zeroPad 2 (FormatUint (unat w) 16)) IntegerColor), p)) \<and>
     (\<forall>t w. v = VUint t (U16 w) \<longrightarrow>
        hexDigits 4 (zeroPad 4 (FormatUint (unat w) 16)) \<and>
        digitsValue 16 (zeroPad 4 (FormatUint (unat w) 16)) = unat w \<and>
        Format (Suc n) L h p (False, v) =
          Return (Flush L (Colorize p
            (if decimalUint p
             then (if thousandsSeparator p then LocalizedSprintf_d L (int (unat w))
                   else FormatUint (unat w) 10)
             else ''0x'' @ zeroPad 4 (FormatUint (unat w) 16)) IntegerColor), p)) \<and>
     (\<forall>t w. v = VUint t (U32 w) \<longrightarrow>
        hexDigits 8 (zeroPad 8 (FormatUint (unat w) 16)) \<and>
        digitsValue 16 (zeroPad 8 (FormatUint (unat w) 16)) = unat w \<and>
        Format (Suc n) L h p (False, v) =
          Return (Flush L (Colorize p
            (if decimalUint p
             then (if thousandsSeparator p then LocalizedSprintf_d L (int (unat w))
                   else FormatUint (unat w) 10)
             else ''0x'' @ zeroPad 8 (FormatUint (unat w) 16)) IntegerColor), p)) \<and>
     (\<forall>t w. v = VUint t (U64 w) \<longrightarrow>
        hexDigits 16 (zeroPad 16 (FormatUint (unat w) 16)) \<and>
        digitsValue 16 (zeroPad 16 (FormatUint (unat w) 16)) = unat w \<and>
        Format (Suc n) L h p (False, v) =
          Return (Flush L (Colorize p
            (if decimalUint p
             then (if thousandsSeparator p then LocalizedSprintf_d L (int (unat w))
                   else FormatUint (unat w) 10)
             else ''0x'' @ zeroPad 16 (FormatUint (unat w) 16)) IntegerColor), p)) \<and>
     (\<forall>t i. v = VInt t i \<longrightarrow>
        Format (Suc n) L h p (False, v) =
          Return (Flush L (Colorize p
            (if thousandsSeparator p then LocalizedSprintf_d L (IntOf i)
             else FormatInt (IntOf i)) IntegerColor), p))"
proof (intro conjI allI impI)
  fix t and w :: "8 word"
  have "unat w < 2 ^ 8" using unsigned_less[of w, where ?'a = nat] by simp
  then show "hexDigits 2 (zeroPad 2 (FormatUint (unat w) 16))"
    by (intro hexDigits_zeroPad) simp_all
next
  fix t and w :: "16 word"
  have "unat w < 2 ^ 16" using unsigned_less[of w, where ?'a = nat] by simp
  then show "hexDigits 4 (zeroPad 4 (FormatUint (unat w) 16))"
    by (intro hexDigits_zeroPad) simp_all
next
  fix t and w :: "32 word"
  have "unat w < 2 ^ 32" using unsigned_less[of w, where ?'a = nat] by simp
  then show "hexDigits 8 (zeroPad 8 (FormatUint (unat w) 16))"
    by (intro hexDigits_zeroPad) simp_all
next
  fix t and w :: "64 word"
  have "unat w < 2 ^ 64" using unsigned_less[of w, where ?'a = nat] by simp
  then show "hexDigits 16 (zeroPad 16 (FormatUint (unat w) 16))"
    by (intro hexDigits_zeroPad) simp_all
next
  fix t and w :: "8 word" assume "v = VUint t (U8 w)"
  then show "Format (Suc n) L h p (False, v) =
          Return (Flush L (Colorize p
            (if decimalUint p then FormatUint (unat w) 10
             else ''0x'' @ zeroPad 2 (FormatUint (unat w) 16)) IntegerColor), p)"
    using assms by (simp add: Format_VUint raw_formatPrinter_VUint Sprintf_0x_def del: Format.simps)
next
  fix t and w :: "16 word" assume "v = VUint t (U16 w)"
  then show "Format (Suc n) L h p (False, v) =
          Return (Flush L (Colorize p
            (if decimalUint p
             then (if thousandsSeparator p then LocalizedSprintf_d L (int (unat w))
                   else FormatUint (unat w) 10)
             else ''0x'' @ zeroPad 4 (FormatUint (unat w) 16)) IntegerColor), p)"
    using assms by (simp add: Format_VUint raw_formatPrinter_VUint Sprintf_0x_def del: Format.simps)
next
  fix t and w :: "32 word" assume "v = VUint t (U32 w)"
  then show "Format (Suc n) L h p (False, v) =
          Return (Flush L (Colorize p
            (if decimalUint p
             then (if thousandsSeparator p then LocalizedSprintf_d L (int (unat w))
                   else FormatUint (unat w) 10)
             else ''0x'' @ zeroPad 8 (FormatUint (unat w) 16)) IntegerColor), p)"
    using assms by (simp add: Format_VUint raw_formatPrinter_VUint Sprintf_0x_def del: Format.simps)
next
  fix t and w :: "64 word" assume "v = VUint t (U64 w)"
  then show "Format (Suc n) L h p (False, v) =
          Return (Flush L (Colorize p
            (if decimalUint p
             then (if thousandsSeparator p then LocalizedSprintf_d L (int (unat w))
                   else FormatUint (unat w) 10)
             else ''0x'' @ zeroPad 16 (FormatUint (unat w) 16)) IntegerColor), p)"
    using assms by (simp add: Format_VUint raw_formatPrinter_VUint Sprintf_0x_def del: Format.simps)
next
  fix t i assume "v = VInt t i"
  then show "Format (Suc n) L h p (False, v) =
          Return (Flush L (Colorize p
            (if thousandsSeparator p then LocalizedSprintf_d L (IntOf i)
             else FormatInt (IntOf i)) IntegerColor), p)"
    using assms by (simp add: Format_VInt raw_formatPrinter_VInt del: Format.simps)
qed (simp_all add: digitsValue_zeroPad digitsValue_FormatUint)

theorem C6_integer_rendering_witness:
  "Format (Suc 0) asciilib emptyHeap (printerOf False False False) (False, VUint tUint8 (U8 255))
     = Return (''0xff'', printerOf False False False) \<and>
   Format (Suc 0) asciilib emptyHeap (printerOf True False False) (False, VUint tUint8 (U8 255))
     = Return (''255'', printerOf True False False)"
proof -
  have h: "\<forall>q. PrettyPrint asciilib q (VUint tUint8 (U8 255)) = None"
    by (simp add: asciilib_def)
  have 1: "Format (Suc 0) asciilib emptyHeap (printerOf False False False) (False, VUint tUint8 (U8 255))
      = Return (Flush asciilib (Colorize (printerOf False False False)
            (if decimalUint (printerOf False False False) then FormatUint (unat (255 :: 8 word)) 10
             else ''0x'' @ zeroPad 2 (FormatUint (unat (255 :: 8 word)) 16)) IntegerColor),
          printerOf False False False)"
    using C6_integer_rendering[OF h, of 0 emptyHeap "printerOf False False False"] by blast
  have 2: "Format (Suc 0) asciilib emptyHeap (printerOf True False False) (False, VUint tUint8 (U8 255))
      = Return (Flush asciilib (Colorize (printerOf True False False)
            (if decimalUint (printerOf True False False) then FormatUint (unat (255 :: 8 word)) 10
             else ''0x'' @ zeroPad 2 (FormatUint (unat (255 :: 8 word)) 16)) IntegerColor),
          printerOf True False False)"
    using C6_integer_rendering[OF h, of 0 emptyHeap "printerOf True False False"] by blast
  have a: "Flush asciilib (Colorize (printerOf False False False)
            (if decimalUint (printerOf False False False) then FormatUint (unat (255 :: 8 word)) 10
             else ''0x'' @ zeroPad 2 (FormatUint (unat (255 :: 8 word)) 16)) IntegerColor) = ''0xff''"
    by code_simp
  have b: "Flush asciilib (Colorize (printerOf True False False)
            (if decimalUint (printerOf True False False) then FormatUint (unat (255 :: 8 word)) 10
             else ''0x'' @ zeroPad 2 (FormatUint (unat (255 :: 8 word)) 16)) IntegerColor) = ''255''"
    by code_simp
  show ?thesis unfolding 1 2 a b by simp
qed

text \<open>
  With both \<open>decimalUint\<close> and \<open>thousandsSeparator\<close> on, the 16-bit value 1000 is
  rendered as \<open>1,000\<close>, which is not its plain decimal text.
\<close>

theorem C6_counterexample:
  "Format (Suc 0) asciilib emptyHeap (printerOf True False True) (False, VUint tUint16 (U16 1000))
     = Return (''1,000'', printerOf True False True) \<and>
   FormatUint (unat (1000 :: 16 word)) 10 = ''1000''"
  by code_simp

lemma Colorize_cong:
  "colorScheme p = colorScheme q \<Longrightarrow> Colorize p = Colorize q"
  by (intro ext) (simp add: Colorize_def)

lemma typeString_cong:
  assumes "colorScheme p = colorScheme q"
  shows "typeString p t = typeString q t"
  unfolding typeString_def colorizeType_def Colorize_cong[OF assms] by (rule refl)

lemma typeString_formatPrinter [simp]:
  "typeString (formatPrinter p v) t = typeString p t"
  by (rule typeString_cong) simp

lemma nil_formatPrinter [simp]: "nil (formatPrinter p v) = nil p"
  by (simp add: nil_def)

lemma typeString_visited_update [simp]:
  "typeString (p\<lparr>visited := X\<rparr>) t = typeString p t"
  by (rule typeString_cong) simp

lemma StringOf_Print_formatPrinter [simp]:
  "StringOf L (Print (formatPrinter p v) s) = Flush L s"
  by (simp add: StringOf_def Flushed_def Print_def)

lemma StringOf_Print_formatPrinter_visited [simp]:
  "StringOf L (Print ((formatPrinter p v)\<lparr>visited := X\<rparr>) s) = Flush L s"
  by (simp add: StringOf_def Flushed_def Print_def)

lemma Format_Suc:
  assumes "Interface v = Inr d" "d = VInvalid \<or> PrettyPrint L (formatPrinter p v) d = None"
  shows "Format (Suc n) L h p v =
           andThen (printValue (Format n L h) L h (formatPrinter p v))
             (\<lambda>pp1. Return (StringOf L pp1, p\<lparr>visited := visited pp1\<rparr>))"
  using assms by (auto simp: FormatCall_def Let_def)

text \<open>
  C10.  A call of \<open>Format\<close> that returns gives back the printer it was called on with
  nothing changed but the visited set, which has only grown: the buffer, the text
  pending in the tab writer and the depth are as before, so \<open>String()\<close> after the call
  is \<open>String()\<close> before it.
\<close>

theorem C10_format_frame:
  assumes "Format n L h p v = Return (s, p')"
  shows "p' = p\<lparr>visited := visited p'\<rparr> \<and> visited p \<subseteq> visited p' \<and>
         Buffer p' = Buffer p \<and> tw p' = tw p \<and> depth p' = depth p \<and>
         StringOf L p' = StringOf L p"
proof -
  from Format_grows[of n L h] assms
  have a: "p' = p\<lparr>visited := visited p'\<rparr>" and b: "visited p \<subseteq> visited p'"
    unfolding grows_def by blast+
  have "Buffer p' = Buffer (p\<lparr>visited := visited p'\<rparr>)" "tw p' = tw (p\<lparr>visited := visited p'\<rparr>)"
    "depth p' = depth (p\<lparr>visited := visited p'\<rparr>)"
    using a by simp_all
  then have c: "Buffer p' = Buffer p" "tw p' = tw p" "depth p' = depth p" by simp_all
  then have "StringOf L p' = StringOf L p" by (simp add: StringOf_def Flushed_def)
  with a b c show ?thesis by blast
qed

theorem C10_format_frame_witness:
  "Format 2 asciilib exampleHeap (Print (printerOf False False False) ''next: '') (False, VPtr tIntPtr 1)
     = Return (''&5'', (Print (printerOf False False False) ''next: '')\<lparr>visited := {1}\<rparr>) \<and>
   StringOf asciilib ((Print (printerOf False False False) ''next: '')\<lparr>visited := {1}\<rparr>)
     = StringOf asciilib (Print (printerOf False False False) ''next: '') \<and>
   tw ((Print (printerOf False False False) ''next: '')\<lparr>visited := {1}\<rparr>)
     = tw (Print (printerOf False False False) ''next: '')"
proof -
  have e: "Format 2 asciilib exampleHeap (Print (printerOf False False False) ''next: '') (False, VPtr tIntPtr 1)
     = Return (''&5'', (Print (printerOf False False False) ''next: '')\<lparr>visited := {1}\<rparr>)"
    by code_simp
  from C10_format_frame[OF e] e show ?thesis by blast
qed

lemma printValue_VSlice [simp]:
  "printValue F L h (formatPrinter p (ro, VSlice t a n)) = printSlice F h (formatPrinter p (ro, VSlice t a n))"
  by (simp add: printValue_def)

lemma printValue_VArray [simp]:
  "printValue F L h (formatPrinter p (ro, VArray t xs)) = printSlice F h (formatPrinter p (ro, VArray t xs))"
  by (simp add: printValue_def)

lemma printValue_VStruct [simp]:
  "printValue F L h (formatPrinter p (ro, VStruct t fs)) = printStruct F L (formatPrinter p (ro, VStruct t fs))"
  by (simp add: printValue_def)

lemma printValue_VMap [simp]:
  "printValue F L h (formatPrinter p (ro, VMap t a)) = printMap F h (formatPrinter p (ro, VMap t a))"
  by (simp add: printValue_def)

lemma printValue_VPtr [simp]:
  "printValue F L h (formatPrinter p (ro, VPtr t a)) = printPtr F h (formatPrinter p (ro, VPtr t a))"
  by (simp add: printValue_def)

lemma printValue_VInterface [simp]:
  "printValue F L h (formatPrinter p (ro, VInterface t e)) = printInterface F (formatPrinter p (ro, VInterface t e))"
  by (simp add: printValue_def)

lemma Interface_False [simp]:
  "v \<noteq> VInvalid \<Longrightarrow> Interface (False, v) = Inr (case v of VInterface t x \<Rightarrow> x | _ \<Rightarrow> v)"
  by (simp add: Interface_def)

lemma SliceElems_nil [simp]: "SliceElems h 0 n = []"
  by (simp add: SliceElems_def)

text \<open>
  C9.  A slice or an array of more than 1024 elements, of a type without a
  \<open>PrettyPrint\<close> method, is rendered as its type name followed by \<open>{...}\<close>.  No element
  is formatted: the call returns with fuel for a single call of \<open>Format\<close>.  A slice's
  address is marked as visited.
\<close>

theorem C9_large_sequence_elided:
  assumes "\<forall>q. PrettyPrint L q v = None"
    and "(v = VSlice t a len \<and> elems = SliceElems h a len \<and> p' = p\<lparr>visited := insert a (visited p)\<rparr>)
         \<or> (v = VArray t elems \<and> p' = p)"
    and "length elems > 1024"
  shows "Format (Suc n) L h p (False, v) = Return (Flush L (typeString p t @ ''{...}''), p')"
  using assms(2)
proof (elim disjE conjE)
  assume v: "v = VSlice t a len" and e: "elems = SliceElems h a len"
    and p': "p' = p\<lparr>visited := insert a (visited p)\<rparr>"
  have a0: "a \<noteq> 0" using assms(3) e by (cases "a = 0") simp_all
  have ne: "SliceElems h a len \<noteq> []" using assms(3) e by auto
  have f: "Format (Suc n) L h p (False, VSlice t a len) =
           andThen (printSlice (Format n L h) h (formatPrinter p (False, VSlice t a len)))
             (\<lambda>pp1. Return (StringOf L pp1, p\<lparr>visited := visited pp1\<rparr>))"
    using assms(1) v by (subst Format_Suc[where d = v]) simp_all
  show ?thesis
  proof (cases "a \<in> visited p")
    case True
    then have "p' = p" using p' by (simp add: insert_absorb)
    then show ?thesis using True a0 ne assms(3) e v
      by (simp add: f printSlice_def del: Format.simps)
  next
    case False
    then show ?thesis using a0 ne assms(3) e v p'
      by (simp add: f printSlice_def Let_def del: Format.simps)
  qed
next
  assume v: "v = VArray t elems" and p': "p' = p"
  have f: "Format (Suc n) L h p (False, VArray t elems) =
           andThen (printSlice (Format n L h) h (formatPrinter p (False, VArray t elems)))
             (\<lambda>pp1. Return (StringOf L pp1, p\<lparr>visited := visited pp1\<rparr>))"
    using assms(1) v by (subst Format_Suc[where d = v]) simp_all
  have "elems \<noteq> []" using assms(3) by auto
  then show ?thesis using assms(3) v p'
    by (simp add: f printSlice_def del: Format.simps)
qed

theorem C9_large_sequence_elided_witness:
  "Format (Suc 0) asciilib exampleHeap (printerOf False False False) (False, VSlice tByteSlice 4 1025)
     = Return (''[]uint8{...}'', (printerOf False False False)\<lparr>visited := {4}\<rparr>)"
proof -
  have h: "\<forall>q. PrettyPrint asciilib q (VSlice tByteSlice 4 1025) = None"
    by (simp add: asciilib_def)
  have l: "length (SliceElems exampleHeap 4 1025) > 1024"
    by (simp add: SliceElems_def exampleHeap_def)
  have v: "visited (printerOf False False False) = {}"
    by (simp add: printerOf_def NewPrinter_def)
  have t: "Flush asciilib (typeString (printerOf False False False) tByteSlice @ ''{...}'') = ''[]uint8{...}''"
    by code_simp
  have c: "(VSlice tByteSlice 4 1025 = VSlice tByteSlice 4 1025
           \<and> SliceElems exampleHeap 4 1025 = SliceElems exampleHeap 4 1025
           \<and> (printerOf False False False)\<lparr>visited := {4}\<rparr>
               = (printerOf False False False)\<lparr>visited := insert 4 (visited (printerOf False False False))\<rparr>)
         \<or> (VSlice tByteSlice 4 1025 = VArray tByteSlice (SliceElems exampleHeap 4 1025)
           \<and> (printerOf False False False)\<lparr>visited := {4}\<rparr> = printerOf False False False)"
    by (simp add: v)
  show ?thesis
    using C9_large_sequence_elided[OF h c l, of 0] by (simp only: t)
qed

lemma keepField_formatPrinter [simp]:
  "keepField (formatPrinter p v) = keepField p"
  by (intro ext) (simp add: keepField_def)

lemma Format_readonly [simp]:
  "x \<noteq> VInvalid \<Longrightarrow> Format (Suc n) L h p (True, x) = Panic InterfaceOnUnexported"
  by (simp add: FormatCall_def Interface_def)

lemma Format_VInvalid [simp]:
  "Format (Suc n) L h p (ro, VInvalid) = Panic InterfaceOnInvalid"
  by (simp add: FormatCall_def Interface_def)

text \<open>
  C1 fails on the code.  \<open>Format\<close> calls \<open>Interface()\<close> on the value it is given before
  it looks at its kind, and reflect panics there on a value reached through an
  unexported struct field.  So with \<open>exportedOnly\<close> off, a struct (of a type without a
  \<open>PrettyPrint\<close> method and other than \<open>time.Time\<close>, \<open>big.Int\<close>, \<open>big.Float\<close>) whose
  first printed field is unexported makes \<open>Format\<close> panic; \<open>Format\<close> of the zero Value
  (\<open>Format(nil)\<close>) panics as well.
\<close>

theorem C1_format_panics:
  assumes "\<forall>q. PrettyPrint L q (VStruct t fs) = None"
    and "\<not> exportedOnly p"
    and "tyString t \<notin> {''time.Time'', ''big.Int'', ''big.Float''}"
    and "filter (keepField p) fs = (f, x) # rest"
    and "PkgPath f \<noteq> []"
    and "x \<noteq> VInvalid"
  shows "Format (Suc (Suc n)) L h p (False, VStruct t fs) = Panic InterfaceOnUnexported \<and>
         Format (Suc n) L h p (False, VInvalid) = Panic InterfaceOnInvalid"
proof -
  have f: "Format (Suc (Suc n)) L h p (False, VStruct t fs) =
           andThen (printStruct (Format (Suc n) L h) L (formatPrinter p (False, VStruct t fs)))
             (\<lambda>pp1. Return (StringOf L pp1, p\<lparr>visited := visited pp1\<rparr>))"
    using assms(1) by (subst Format_Suc[where d = "VStruct t fs"]) simp_all
  have "printStruct (Format (Suc n) L h) L (formatPrinter p (False, VStruct t fs))
          = Panic InterfaceOnUnexported"
    using assms(3-6) by (simp add: printStruct_def printField_def del: Format.simps)
  then show ?thesis by (simp add: f del: Format.simps)
qed

theorem C1_format_panics_witness:
  "Format (Suc (Suc 0)) asciilib emptyHeap (printerOf False False False) (False, structT)
     = Panic InterfaceOnUnexported \<and>
   Format (Suc 0) asciilib emptyHeap (printerOf False False False) (False, VInvalid)
     = Panic InterfaceOnInvalid"
proof -
  have 1: "\<forall>q. PrettyPrint asciilib q (VStruct tT [(fieldx, VInt tInt (I 1))]) = None"
    by (simp add: asciilib_def)
  have 2: "\<not> exportedOnly (printerOf False False False)"
    by (simp add: printerOf_def NewPrinter_def)
  have 3: "tyString tT \<notin> {''time.Time'', ''big.Int'', ''big.Float''}"
    by (simp add: tT_def)
  have 4: "filter (keepField (printerOf False False False)) [(fieldx, VInt tInt (I 1))]
             = (fieldx, VInt tInt (I 1)) # []"
    by (simp add: keepField_def fieldx_def 2)
  have 5: "PkgPath fieldx \<noteq> []" by (simp add: fieldx_def)
  have 6: "VInt tInt (I 1) \<noteq> VInvalid" by simp
  show ?thesis
    using C1_format_panics[OF 1 2 3 4 5 6, of 0 emptyHeap] by (simp only: structT_def)
qed

lemma stringGroupSize_foldl:
  "foldl (\<lambda>mx s. if length s > mx then length s else mx) m ss = Max (insert m (length ` set ss))"
proof (induction ss arbitrary: m)
  case Nil
  show ?case by simp
next
  case (Cons s ss)
  have "Max (insert (max m (length s)) (length ` set ss)) = Max (insert m (insert (length s) (length ` set ss)))"
  proof (cases "ss = []")
    case True
    then show ?thesis by (simp add: max.commute)
  next
    case False
    then show ?thesis by (simp add: max.assoc)
  qed
  moreover have "(if length s > m then length s else m) = max m (length s)" by (simp add: max_def)
  ultimately show ?case using Cons.IH[of "max m (length s)"] by simp
qed

lemma stringGroupSize_Max:
  "ss \<noteq> [] \<Longrightarrow> stringGroupSize ss = Max (length ` set ss)"
  unfolding stringGroupSize_def stringGroupSize_foldl
  by (subst Max_insert) (auto simp: max_def)

lemma stringGroupSize_0_iff: "stringGroupSize ss = 0 \<longleftrightarrow> (\<forall>s\<in>set ss. s = [])"
proof (cases "ss = []")
  case True
  then show ?thesis by (simp add: stringGroupSize_def)
next
  case False
  have "Max (length ` set ss) = 0 \<longleftrightarrow> (\<forall>n\<in>length ` set ss. n = 0)"
  proof
    assume m: "Max (length ` set ss) = 0"
    show "\<forall>n\<in>length ` set ss. n = 0"
    proof
      fix n assume "n \<in> length ` set ss"
      then have "n \<le> Max (length ` set ss)" by (intro Max_ge) auto
      then show "n = 0" using m by simp
    qed
  next
    assume "\<forall>n\<in>length ` set ss. n = 0"
    moreover have "Max (length ` set ss) \<in> length ` set ss" using False by (intro Max_in) auto
    ultimately show "Max (length ` set ss) = 0" by blast
  qed
  then show ?thesis using False by (simp add: stringGroupSize_Max)
qed

text \<open>
  C4.  For a non-empty \<open>[]string\<close>, \<open>stringGroupSize\<close> is the length of the longest
  string; when that is positive, the group size is 36 divided by it.  When every
  string is empty the division is by zero: on such a slice (first seen here, at most
  1024 elements, no \<open>PrettyPrint\<close> method) \<open>Format\<close> panics instead of rendering
  without grouping.
\<close>

theorem C4_string_group_size:
  assumes "tyElemKind t = KString" and "tyString t = ''[]string''"
    and "ss = stringsOf (SliceElems h a len)" and "ss \<noteq> []"
  shows "stringGroupSize ss = Max (length ` set ss) \<and>
         (0 < stringGroupSize ss \<longrightarrow>
            groupSizeOf h (False, VSlice t a len) t = Return (36 div stringGroupSize ss)) \<and>
         ((\<forall>s\<in>set ss. s = []) \<and> length ss \<le> 1024 \<and> a \<notin> visited p \<and>
          (\<forall>q. PrettyPrint L q (VSlice t a len) = None) \<longrightarrow>
            Format (Suc n) L h p (False, VSlice t a len) = Panic DivideByZero)"
proof (intro conjI impI)
  show "stringGroupSize ss = Max (length ` set ss)" using assms(4) by (rule stringGroupSize_Max)
next
  assume "0 < stringGroupSize ss"
  then show "groupSizeOf h (False, VSlice t a len) t = Return (36 div stringGroupSize ss)"
    using assms(1-3) by (simp add: groupSizeOf_def assertStringSlice_def)
next
  assume c: "(\<forall>s\<in>set ss. s = []) \<and> length ss \<le> 1024 \<and> a \<notin> visited p \<and>
          (\<forall>q. PrettyPrint L q (VSlice t a len) = None)"
  then have z: "stringGroupSize ss = 0" by (simp add: stringGroupSize_0_iff)
  have ne: "SliceElems h a len \<noteq> []" using assms(3,4) by (auto simp: stringsOf_def)
  then have a0: "a \<noteq> 0" by (cases "a = 0") simp_all
  have le: "\<not> 1024 < length (SliceElems h a len)" using c assms(3) by (simp add: stringsOf_def)
  have g: "groupSizeOf h (False, VSlice t a len) t = Panic DivideByZero"
    using assms(1-3) z by (simp add: groupSizeOf_def assertStringSlice_def)
  have f: "Format (Suc n) L h p (False, VSlice t a len) =
           andThen (printSlice (Format n L h) h (formatPrinter p (False, VSlice t a len)))
             (\<lambda>pp1. Return (StringOf L pp1, p\<lparr>visited := visited pp1\<rparr>))"
    using c by (subst Format_Suc[where d = "VSlice t a len"]) simp_all
  show "Format (Suc n) L h p (False, VSlice t a len) = Panic DivideByZero"
    using c ne a0 le g by (simp add: f printSlice_def printElems_def Let_def del: Format.simps)
qed

theorem C4_string_group_size_witness:
  "groupSizeOf exampleHeap (False, VSlice tStringSlice 3 2) tStringSlice = Return 9 \<and>
   Format (Suc 0) asciilib exampleHeap (printerOf False False False) (False, VSlice tStringSlice 2 1)
     = Panic DivideByZero"
proof -
  have 1: "tyElemKind tStringSlice = KString" "tyString tStringSlice = ''[]string''"
    by (simp_all add: tStringSlice_def)
  have s3: "stringsOf (SliceElems exampleHeap 3 2) = [''ab'', ''abcd'']"
    by (simp add: stringsOf_def SliceElems_def exampleHeap_def)
  have s2: "stringsOf (SliceElems exampleHeap 2 1) = [[]]"
    by (simp add: stringsOf_def SliceElems_def exampleHeap_def)
  have g3: "stringGroupSize [''ab'', ''abcd''] = 4" by (simp add: stringGroupSize_def)
  have v: "visited (printerOf False False False) = {}"
    by (simp add: printerOf_def NewPrinter_def)
  have p: "\<forall>q. PrettyPrint asciilib q (VSlice tStringSlice 2 1) = None"
    by (simp add: asciilib_def)
  have a: "groupSizeOf exampleHeap (False, VSlice tStringSlice 3 2) tStringSlice = Return 9"
    using C4_string_group_size[OF 1 s3[symmetric], of "printerOf False False False" asciilib 0]
    by (simp add: g3)
  have b: "Format (Suc 0) asciilib exampleHeap (printerOf False False False) (False, VSlice tStringSlice 2 1)
     = Panic DivideByZero"
    using C4_string_group_size[OF 1 s2[symmetric], of "printerOf False False False" asciilib 0] p
    by (simp add: v del: Format.simps)
  show ?thesis using a b by simp
qed

section \<open>The stable sort\<close>


lemma mset_sink: "mset (sink lt x acc) = add_mset x (mset acc)"
  by (induction acc) auto

lemma mset_foldl_sink: "mset (foldl (\<lambda>acc x. sink lt x acc) acc xs) = mset acc + mset xs"
  by (induction xs arbitrary: acc) (simp_all add: mset_sink)

lemma mset_Stable: "mset (Stable lt xs) = mset xs"
  by (simp add: Stable_def mset_foldl_sink)

lemma set_Stable: "set (Stable lt xs) = set xs"
  using mset_Stable[of lt xs] by (metis set_mset_mset)

lemma length_Stable: "length (Stable lt xs) = length xs"
  using mset_Stable[of lt xs] by (metis size_mset)






section \<open>Sortedness for a total order\<close>

lemma sorted_sink:
  assumes tr: "\<And>a b c. lt a b \<Longrightarrow> lt b c \<Longrightarrow> lt a c"
    and tot: "\<forall>y\<in>set acc. lt x y \<or> lt y x"
    and s: "sorted_wrt (\<lambda>a b. lt b a) acc"
  shows "sorted_wrt (\<lambda>a b. lt b a) (sink lt x acc)"
  using tot s
proof (induction acc)
  case Nil
  show ?case by simp
next
  case (Cons y ys)
  show ?case
  proof (cases "lt x y")
    case True
    have "set (sink lt x ys) = insert x (set ys)"
      using mset_sink[of lt x ys] by (metis set_mset_add_mset_insert set_mset_mset)
    then show ?thesis using True Cons by auto
  next
    case False
    then have yx: "lt y x" using Cons.prems(1) by simp
    have "\<forall>z\<in>set ys. lt z x"
    proof
      fix z assume "z \<in> set ys"
      then have "lt z y" using Cons.prems(2) by simp
      then show "lt z x" using yx tr by blast
    qed
    then show ?thesis using False yx Cons.prems(2) by simp
  qed
qed

lemma sorted_foldl_sink:
  assumes tr: "\<And>a b c. lt a b \<Longrightarrow> lt b c \<Longrightarrow> lt a c"
    and tot: "\<forall>x\<in>set acc \<union> set xs. \<forall>y\<in>set acc \<union> set xs. x \<noteq> y \<longrightarrow> lt x y \<or> lt y x"
    and d: "distinct (acc @ xs)"
    and s: "sorted_wrt (\<lambda>a b. lt b a) acc"
  shows "sorted_wrt (\<lambda>a b. lt b a) (foldl (\<lambda>acc x. sink lt x acc) acc xs)"
  using tot d s
proof (induction xs arbitrary: acc)
  case Nil
  then show ?case by simp
next
  case (Cons x xs)
  have sx: "set (sink lt x acc) = insert x (set acc)"
    using mset_sink[of lt x acc] by (metis set_mset_add_mset_insert set_mset_mset)
  have "\<forall>y\<in>set acc. lt x y \<or> lt y x" using Cons.prems(1,2) by auto
  from sorted_sink[of lt, OF tr this Cons.prems(3)]
  have 1: "sorted_wrt (\<lambda>a b. lt b a) (sink lt x acc)" .
  have 2: "distinct (sink lt x acc @ xs)"
    using Cons.prems(2) sx by (auto simp: distinct_count_atmost_1 mset_sink simp flip: count_mset)
  have 3: "\<forall>a\<in>set (sink lt x acc) \<union> set xs. \<forall>b\<in>set (sink lt x acc) \<union> set xs.
             a \<noteq> b \<longrightarrow> lt a b \<or> lt b a"
    using Cons.prems(1) sx by auto
  from Cons.IH[OF 3 2 1] show ?case by simp
qed

lemma sorted_Stable:
  assumes "\<And>a b c. lt a b \<Longrightarrow> lt b c \<Longrightarrow> lt a c"
    and "\<forall>x\<in>set xs. \<forall>y\<in>set xs. x \<noteq> y \<longrightarrow> lt x y \<or> lt y x"
    and "distinct xs"
  shows "sorted_wrt lt (Stable lt xs)"
proof -
  have "sorted_wrt (\<lambda>a b. lt b a) (foldl (\<lambda>acc x. sink lt x acc) [] xs)"
    using sorted_foldl_sink[of lt "[]" xs] assms by simp
  then show ?thesis by (simp add: Stable_def sorted_wrt_rev)
qed

lemma sorted_wrt_unique:
  assumes irr: "\<And>a. \<not> lt a a" and tr: "\<And>a b c. lt a b \<Longrightarrow> lt b c \<Longrightarrow> lt a c"
    and "sorted_wrt lt xs" "sorted_wrt lt ys" "set xs = set ys"
  shows "xs = ys"
  using assms(3-5)
proof (induction xs arbitrary: ys)
  case Nil
  then show ?case by simp
next
  case (Cons x xs)
  then obtain y ys' where ys: "ys = y # ys'" by (cases ys) auto
  have xy: "x = y"
  proof (rule ccontr)
    assume ne: "x \<noteq> y"
    have "x \<in> set ys'" using Cons.prems(3) ys ne by auto
    then have "lt y x" using Cons.prems(2) ys by simp
    moreover have "y \<in> set xs" using Cons.prems(3) ys ne by auto
    then have "lt x y" using Cons.prems(1) by simp
    ultimately show False using irr tr by blast
  qed
  have "x \<notin> set xs" using Cons.prems(1) irr by auto
  moreover have "y \<notin> set ys'" using Cons.prems(2) ys irr by auto
  ultimately have "set xs = set ys'" using Cons.prems(3) ys xy by auto
  then have "xs = ys'" using Cons.IH[of ys'] Cons.prems(1,2) ys by simp
  then show ?case using xy ys by simp
qed

text \<open>
  For entries that a transitive, irreflexive comparison orders totally, the sorted list
  does not depend on the order in which the entries came.
\<close>

lemma Stable_permutation:
  assumes irr: "\<And>a. \<not> lt a a" and tr: "\<And>a b c. lt a b \<Longrightarrow> lt b c \<Longrightarrow> lt a c"
    and tot: "\<forall>x\<in>set xs. \<forall>y\<in>set xs. x \<noteq> y \<longrightarrow> lt x y \<or> lt y x"
    and d: "distinct xs" and m: "mset ys = mset xs"
  shows "Stable lt ys = Stable lt xs"
proof -
  have s: "set ys = set xs" using m by (metis set_mset_mset)
  have dy: "distinct ys" using d m by (metis mset_eq_imp_distinct_iff)
  have 1: "sorted_wrt lt (Stable lt xs)" using sorted_Stable[of lt xs] tr tot d by blast
  have 2: "sorted_wrt lt (Stable lt ys)" using sorted_Stable[of lt ys] tr tot dy s by blast
  show ?thesis
  proof (rule sorted_wrt_unique[of lt, OF irr tr 2 1])
    show "set (Stable lt ys) = set (Stable lt xs)"
      using set_Stable[of lt ys] set_Stable[of lt xs] s by simp
  qed
qed

section \<open>The comparison of keys\<close>


lemma string_lt_irrefl [simp]: "\<not> string_lt x x"
  by (induction x) simp_all

lemma string_lt_trans: "string_lt x y \<Longrightarrow> string_lt y z \<Longrightarrow> string_lt x z"
proof (induction x y arbitrary: z rule: string_lt.induct)
  case (4 a x b y)
  then obtain c z' where z: "z = c # z'" by (cases z) auto
  show ?case using 4 z by (auto split: if_splits)
qed (case_tac z; simp)+

lemma string_lt_total: "x \<noteq> y \<Longrightarrow> string_lt x y \<or> string_lt y x"
proof (induction x y rule: string_lt.induct)
  case (4 a x b y)
  have "(of_char a :: nat) = of_char b \<Longrightarrow> a = b" by simp
  then show ?case using 4 by (cases "(of_char a :: nat) < of_char b"; cases "(of_char b :: nat) < of_char a") auto
qed simp_all

lemma Type_eq_Kind: "Type a = Type b \<Longrightarrow> Kind a = Kind b"
  by (simp add: Type_def)

lemma Less_irrefl [simp]: "\<not> Less a a"
  by (cases a) (simp_all add: Less_def float_lt_def)

lemma Less_cases:
  assumes "Less a b"
  obtains
    (Int) ta x tb y where "a = VInt ta x" "b = VInt tb y" "IntOf x < IntOf y"
  | (Uint) ta x tb y where "a = VUint ta x" "b = VUint tb y" "UintOf x < UintOf y"
  | (String) ta x tb y where "a = VString ta x" "b = VString tb y" "string_lt x y"
  | (Float) ta ka x tb kb y where "a = VFloat ta ka x" "b = VFloat tb kb y" "float_lt x y"
  | (Bool) ta tb where "a = VBool ta False" "b = VBool tb True"
  | (Ptr) ta x tb y where "a = VPtr ta x" "b = VPtr tb y" "x < y"
  | (Struct) ta x tb y where "a = VStruct ta x" "b = VStruct tb y" "length x < length y"
  | (Array) ta x tb y where "a = VArray ta x" "b = VArray tb y" "length x < length y"
proof (cases a)
  case (VInt ta x)
  with assms show ?thesis by (cases b) (auto simp: Less_def intro: Int split: if_splits)
next
  case (VUint ta x)
  with assms show ?thesis by (cases b) (auto simp: Less_def intro: Uint split: if_splits)
next
  case (VString ta x)
  with assms show ?thesis by (cases b) (auto simp: Less_def intro: String split: if_splits)
next
  case (VFloat ta ka x)
  with assms show ?thesis by (cases b) (auto simp: Less_def intro: Float split: if_splits)
next
  case (VBool ta x)
  with assms show ?thesis by (cases b) (auto simp: Less_def intro: Bool split: if_splits)
next
  case (VPtr ta x)
  with assms show ?thesis by (cases b) (auto simp: Less_def intro: Ptr split: if_splits)
next
  case (VStruct ta x)
  with assms show ?thesis by (cases b) (auto simp: Less_def intro: Struct split: if_splits)
next
  case (VArray ta x)
  with assms show ?thesis by (cases b) (auto simp: Less_def intro: Array split: if_splits)
qed (use assms in \<open>simp_all add: Less_def split: if_splits\<close>)

lemma Less_Type: "Less a b \<Longrightarrow> Type a = Type b"
  by (simp add: Less_def split: if_splits)

lemma float_lt_trans: "float_lt x y \<Longrightarrow> float_lt y z \<Longrightarrow> float_lt x z"
  by (auto simp: float_lt_def)

lemma Less_trans:
  assumes "Less a b" "Less b c"
  shows "Less a c"
proof -
  have t: "Type a = Type c" using assms by (simp add: Less_Type)
  from assms(1) show ?thesis
  proof (cases rule: Less_cases)
    case (Int ta x tb y)
    with assms(2) obtain tc z where "c = VInt tc z" "IntOf y < IntOf z"
      by (cases rule: Less_cases) auto
    then show ?thesis using Int t by (simp add: Less_def)
  next
    case (Uint ta x tb y)
    with assms(2) obtain tc z where "c = VUint tc z" "UintOf y < UintOf z"
      by (cases rule: Less_cases) auto
    then show ?thesis using Uint t by (simp add: Less_def)
  next
    case (String ta x tb y)
    with assms(2) obtain tc z where "c = VString tc z" "string_lt y z"
      by (cases rule: Less_cases) auto
    then show ?thesis using String t string_lt_trans[of x y z] by (simp add: Less_def)
  next
    case (Float ta ka x tb kb y)
    with assms(2) obtain tc kc z where "c = VFloat tc kc z" "float_lt y z"
      by (cases rule: Less_cases) auto
    then show ?thesis using Float t float_lt_trans[of x y z]
      by (auto simp: Less_def float_ne_def float_lt_def)
  next
    case (Bool ta tb)
    with assms(2) show ?thesis by (cases rule: Less_cases) auto
  next
    case (Ptr ta x tb y)
    with assms(2) obtain tc z where "c = VPtr tc z" "y < z"
      by (cases rule: Less_cases) auto
    then show ?thesis using Ptr t by (simp add: Less_def)
  next
    case (Struct ta x tb y)
    with assms(2) obtain tc z where "c = VStruct tc z" "length y < length z"
      by (cases rule: Less_cases) auto
    then show ?thesis using Struct t by (simp add: Less_def)
  next
    case (Array ta x tb y)
    with assms(2) obtain tc z where "c = VArray tc z" "length y < length z"
      by (cases rule: Less_cases) auto
    then show ?thesis using Array t by (simp add: Less_def)
  qed
qed

lemma entryLess_irrefl: "\<not> entryLess e e"
  by (simp add: entryLess_def)

lemma entryLess_trans: "entryLess a b \<Longrightarrow> entryLess b c \<Longrightarrow> entryLess a c"
  unfolding entryLess_def by (rule Less_trans)






section \<open>More fuel changes no result\<close>

lemma fuelLeD: "fuelLe F G \<Longrightarrow> F p v \<noteq> OutOfFuel \<Longrightarrow> G p v = F p v"
  unfolding fuelLe_def by blast

lemma andThen_mono:
  assumes "andThen m f \<noteq> OutOfFuel"
    and "m \<noteq> OutOfFuel \<Longrightarrow> m' = m"
    and "\<And>x. m = Return x \<Longrightarrow> f x \<noteq> OutOfFuel \<Longrightarrow> f' x = f x"
  shows "andThen m' f' = andThen m f"
  using assms by (cases m) auto

lemma forEach_mono:
  assumes "\<And>x p. x \<in> set xs \<Longrightarrow> body x p \<noteq> OutOfFuel \<Longrightarrow> body' x p = body x p"
    and "forEach body xs p \<noteq> OutOfFuel"
  shows "forEach body' xs p = forEach body xs p"
  using assms
proof (induction xs arbitrary: p)
  case Nil
  show ?case by simp
next
  case (Cons x xs)
  show ?case unfolding forEach.simps
  proof (rule andThen_mono)
    show "andThen (body x p) (forEach body xs) \<noteq> OutOfFuel" using Cons.prems(2) by simp
    show "body x p \<noteq> OutOfFuel \<Longrightarrow> body' x p = body x p" using Cons.prems(1) by simp
    fix q assume "body x p = Return q" "forEach body xs q \<noteq> OutOfFuel"
    then show "forEach body' xs q = forEach body xs q"
      using Cons.IH[of q] Cons.prems(1) by simp
  qed
qed

lemma printMapEntry_mono:
  assumes "fuelLe F G" "printMapEntry F ro e p \<noteq> OutOfFuel"
  shows "printMapEntry G ro e p = printMapEntry F ro e p"
  unfolding printMapEntry_def
proof (rule andThen_mono)
  show "andThen (F p (ro, fst e)) (\<lambda>(ks, p1). andThen (F p1 (ro, snd e)) (\<lambda>(vs, p2).
       Return (IndentPrint p2 (ks @ '':'' @ [CHR 0x09] @ vs @ '','' @ [CHR 0x0A])))) \<noteq> OutOfFuel"
    using assms(2) by (simp add: printMapEntry_def)
  show "F p (ro, fst e) \<noteq> OutOfFuel \<Longrightarrow> G p (ro, fst e) = F p (ro, fst e)"
    using assms(1) by (rule fuelLeD)
  fix x assume "F p (ro, fst e) = Return x"
    and n: "(case x of (ks, p1) \<Rightarrow> andThen (F p1 (ro, snd e)) (\<lambda>(vs, p2).
       Return (IndentPrint p2 (ks @ '':'' @ [CHR 0x09] @ vs @ '','' @ [CHR 0x0A])))) \<noteq> OutOfFuel"
  obtain ks p1 where x: "x = (ks, p1)" by (cases x)
  have "F p1 (ro, snd e) \<noteq> OutOfFuel" using n x by (auto simp: andThen_OutOfFuel_iff)
  then have "G p1 (ro, snd e) = F p1 (ro, snd e)" using assms(1) by (rule fuelLeD[rotated])
  then show "(case x of (ks, p1) \<Rightarrow> andThen (G p1 (ro, snd e)) (\<lambda>(vs, p2).
       Return (IndentPrint p2 (ks @ '':'' @ [CHR 0x09] @ vs @ '','' @ [CHR 0x0A]))))
     = (case x of (ks, p1) \<Rightarrow> andThen (F p1 (ro, snd e)) (\<lambda>(vs, p2).
       Return (IndentPrint p2 (ks @ '':'' @ [CHR 0x09] @ vs @ '','' @ [CHR 0x0A]))))"
    using x by simp
qed

text \<open>A body that calls the formatter once.\<close>

lemma call_mono:
  assumes "fuelLe F G" "andThen (F p v) k \<noteq> OutOfFuel"
  shows "andThen (G p v) k = andThen (F p v) k"
proof -
  have "F p v \<noteq> OutOfFuel" using assms(2) by (auto simp: andThen_OutOfFuel_iff)
  then show ?thesis using fuelLeD[OF assms(1)] by simp
qed

lemma printField_mono:
  assumes "fuelLe F G" "printField F ro fv p \<noteq> OutOfFuel"
  shows "printField G ro fv p = printField F ro fv p"
  using assms(2) unfolding printField_def Let_def
  by (cases fv) (simp add: call_mono[OF assms(1)])

lemma printInlineElem_mono:
  assumes "fuelLe F G" "printInlineElem F ro e p \<noteq> OutOfFuel"
  shows "printInlineElem G ro e p = printInlineElem F ro e p"
  using assms(2) unfolding printInlineElem_def by (simp add: call_mono[OF assms(1)])

lemma printLineElem_mono:
  assumes "fuelLe F G" "printLineElem F ro e p \<noteq> OutOfFuel"
  shows "printLineElem G ro e p = printLineElem F ro e p"
  using assms(2) unfolding printLineElem_def by (simp add: call_mono[OF assms(1)])

lemma printGroupedElem_mono:
  assumes "fuelLe F G" "printGroupedElem F ro g len ie p \<noteq> OutOfFuel"
  shows "printGroupedElem G ro g len ie p = printGroupedElem F ro g len ie p"
  using assms(2) unfolding printGroupedElem_def Let_def
  by (cases ie) (simp add: call_mono[OF assms(1)])

lemma printMap_mono:
  assumes "fuelLe F G" "printMap F h p \<noteq> OutOfFuel"
  shows "printMap G h p = printMap F h p"
proof -
  obtain ro v where pv: "pvalue p = (ro, v)" by (cases "pvalue p")
  show ?thesis
  proof (cases v)
    case (VMap t a)
    show ?thesis
    proof (cases "length (MapEntries h a) = 0 \<or> a \<in> visited p")
      case True
      then show ?thesis using pv VMap by (auto simp: printMap_def)
    next
      case False
      define p2 where "p2 = indentedBegin (Print (p\<lparr>visited := insert a (visited p)\<rparr>)
                (typeString (p\<lparr>visited := insert a (visited p)\<rparr>) t @ ''{'' @ [CHR 0x0A]))"
      have n: "forEach (printMapEntry F ro) (Stable entryLess (MapEntries h a)) p2 \<noteq> OutOfFuel"
        using assms(2) pv VMap False
        by (auto simp: printMap_def Let_def sortMap_def p2_def andThen_OutOfFuel_iff)
      have "forEach (printMapEntry G ro) (Stable entryLess (MapEntries h a)) p2
          = forEach (printMapEntry F ro) (Stable entryLess (MapEntries h a)) p2"
        by (rule forEach_mono[OF _ n]) (rule printMapEntry_mono[OF assms(1)])
      then show ?thesis using pv VMap False
        by (simp add: printMap_def Let_def sortMap_def p2_def)
    qed
  qed (use pv in \<open>simp_all add: printMap_def\<close>)
qed

lemma printStruct_mono:
  assumes "fuelLe F G" "printStruct F L p \<noteq> OutOfFuel"
  shows "printStruct G L p = printStruct F L p"
proof -
  obtain ro v where pv: "pvalue p = (ro, v)" by (cases "pvalue p")
  show ?thesis
  proof (cases v)
    case (VStruct t fs)
    define p1 where "p1 = indentedBegin (Println p (typeString p t @ ''{''))"
    show ?thesis
    proof (cases "forEach (printField F ro) (filter (keepField p) fs) p1 = OutOfFuel")
      case True
      then show ?thesis using assms(2) pv VStruct
        by (auto simp: printStruct_def Let_def p1_def split: if_splits)
    next
      case False
      have "forEach (printField G ro) (filter (keepField p) fs) p1
          = forEach (printField F ro) (filter (keepField p) fs) p1"
        by (rule forEach_mono[OF _ False]) (rule printField_mono[OF assms(1)])
      then show ?thesis using pv VStruct
        by (auto simp: printStruct_def Let_def p1_def)
    qed
  qed (use pv in \<open>simp_all add: printStruct_def\<close>)
qed

lemma printElems_mono:
  assumes "fuelLe F G" "printElems F h p t elems \<noteq> OutOfFuel"
  shows "printElems G h p t elems = printElems F h p t elems"
proof (cases "groupSizeOf h (pvalue p) t")
  case (Return g)
  define ro where "ro = fst (pvalue p)"
  show ?thesis
  proof (cases "length elems < g")
    case True
    show ?thesis
    proof (cases elems)
      case Nil
      then show ?thesis using Return True by (simp add: printElems_def Let_def)
    next
      case (Cons e0 es)
      have n: "andThen (F (Print p ''{'') (ro, e0)) (\<lambda>(s, p1).
                  andThen (forEach (printInlineElem F ro) es (Print p1 s)) (\<lambda>p2.
                    Return (Print p2 ''}''))) \<noteq> OutOfFuel"
        using assms(2) Return True Cons by (simp add: printElems_def ro_def Let_def)
      have "andThen (G (Print p ''{'') (ro, e0)) (\<lambda>(s, p1).
                  andThen (forEach (printInlineElem G ro) es (Print p1 s)) (\<lambda>p2.
                    Return (Print p2 ''}'')))
          = andThen (F (Print p ''{'') (ro, e0)) (\<lambda>(s, p1).
                  andThen (forEach (printInlineElem F ro) es (Print p1 s)) (\<lambda>p2.
                    Return (Print p2 ''}'')))"
      proof (rule andThen_mono[OF n])
        show "F (Print p ''{'') (ro, e0) \<noteq> OutOfFuel \<Longrightarrow>
              G (Print p ''{'') (ro, e0) = F (Print p ''{'') (ro, e0)"
          using assms(1) by (rule fuelLeD)
        fix x assume "F (Print p ''{'') (ro, e0) = Return x"
          and m: "(case x of (s, p1) \<Rightarrow>
                  andThen (forEach (printInlineElem F ro) es (Print p1 s)) (\<lambda>p2.
                    Return (Print p2 ''}''))) \<noteq> OutOfFuel"
        obtain s p1 where x: "x = (s, p1)" by (cases x)
        have "forEach (printInlineElem F ro) es (Print p1 s) \<noteq> OutOfFuel"
          using m x by (auto simp: andThen_OutOfFuel_iff)
        then have "forEach (printInlineElem G ro) es (Print p1 s)
            = forEach (printInlineElem F ro) es (Print p1 s)"
          by (rule forEach_mono[rotated]) (rule printInlineElem_mono[OF assms(1)])
        then show "(case x of (s, p1) \<Rightarrow>
                  andThen (forEach (printInlineElem G ro) es (Print p1 s)) (\<lambda>p2.
                    Return (Print p2 ''}'')))
            = (case x of (s, p1) \<Rightarrow>
                  andThen (forEach (printInlineElem F ro) es (Print p1 s)) (\<lambda>p2.
                    Return (Print p2 ''}'')))"
          using x by simp
      qed
      then show ?thesis using Return True Cons by (simp add: printElems_def ro_def Let_def)
    qed
  next
    case False
    define p1 where "p1 = indentedBegin (Println p ''{'')"
    show ?thesis
    proof (cases "g > 0")
      case True
      have n: "forEach (printGroupedElem F ro g (length elems)) (zip [0..<length elems] elems) p1
                 \<noteq> OutOfFuel"
        using assms(2) Return False True
        by (auto simp: printElems_def ro_def p1_def Let_def andThen_OutOfFuel_iff)
      have "forEach (printGroupedElem G ro g (length elems)) (zip [0..<length elems] elems) p1
          = forEach (printGroupedElem F ro g (length elems)) (zip [0..<length elems] elems) p1"
        by (rule forEach_mono[OF _ n]) (rule printGroupedElem_mono[OF assms(1)])
      then show ?thesis using Return False True by (simp add: printElems_def ro_def p1_def Let_def)
    next
      case g0: False
      have n: "forEach (printLineElem F ro) elems p1 \<noteq> OutOfFuel"
        using assms(2) Return False g0
        by (auto simp: printElems_def ro_def p1_def Let_def andThen_OutOfFuel_iff)
      have "forEach (printLineElem G ro) elems p1 = forEach (printLineElem F ro) elems p1"
        by (rule forEach_mono[OF _ n]) (rule printLineElem_mono[OF assms(1)])
      then show ?thesis using Return False g0 by (simp add: printElems_def ro_def p1_def Let_def)
    qed
  qed
qed (simp_all add: printElems_def Let_def)

lemma printSlice_mono:
  assumes "fuelLe F G" "printSlice F h p \<noteq> OutOfFuel"
  shows "printSlice G h p = printSlice F h p"
proof (cases "snd (pvalue p)")
  case (VSlice t a n)
  then show ?thesis using assms(2) printElems_mono[OF assms(1)]
    by (auto simp: printSlice_def Let_def)
next
  case (VArray t xs)
  then show ?thesis using assms(2) printElems_mono[OF assms(1)]
    by (auto simp: printSlice_def Let_def)
qed (simp_all add: printSlice_def)

lemma printInterface_mono:
  assumes "fuelLe F G" "printInterface F p \<noteq> OutOfFuel"
  shows "printInterface G p = printInterface F p"
proof -
  obtain ro v where pv: "pvalue p = (ro, v)" by (cases "pvalue p")
  show ?thesis using assms(2) pv
    by (cases v) (auto simp: printInterface_def call_mono[OF assms(1)])
qed

lemma printPtr_mono:
  assumes "fuelLe F G" "printPtr F h p \<noteq> OutOfFuel"
  shows "printPtr G h p = printPtr F h p"
proof -
  obtain ro v where pv: "pvalue p = (ro, v)" by (cases "pvalue p")
  show ?thesis using assms(2) pv
    by (cases v) (auto simp: printPtr_def Let_def call_mono[OF assms(1)])
qed

lemma printValue_mono:
  assumes "fuelLe F G" "printValue F L h p \<noteq> OutOfFuel"
  shows "printValue G L h p = printValue F L h p"
  using assms(2) printMap_mono[OF assms(1), of h p] printStruct_mono[OF assms(1), of L p]
    printSlice_mono[OF assms(1), of h p] printInterface_mono[OF assms(1), of p]
    printPtr_mono[OF assms(1), of h p]
  by (cases "Kind (snd (pvalue p))") (simp_all add: printValue_def)

lemma FormatCall_mono:
  assumes "fuelLe F G"
  shows "fuelLe (FormatCall F L h) (FormatCall G L h)"
  unfolding fuelLe_def
proof (intro allI impI)
  fix p v assume n: "FormatCall F L h p v \<noteq> OutOfFuel"
  show "FormatCall G L h p v = FormatCall F L h p v"
  proof (cases "Interface v")
    case (Inl e)
    then show ?thesis by (simp add: FormatCall_def)
  next
    case (Inr d)
    show ?thesis
    proof (cases "if d = VInvalid then None else PrettyPrint L (formatPrinter p v) d")
      case (Some s)
      then show ?thesis using Inr by (simp add: FormatCall_def Let_def)
    next
      case None
      then have "printValue F L h (formatPrinter p v) \<noteq> OutOfFuel"
        using n Inr by (auto simp: FormatCall_def Let_def andThen_OutOfFuel_iff)
      from printValue_mono[OF assms this] show ?thesis
        using Inr None by (simp add: FormatCall_def Let_def)
    qed
  qed
qed

lemma Format_Suc_mono: "fuelLe (Format n L h) (Format (Suc n) L h)"
proof (induction n)
  case 0
  show ?case by (simp add: fuelLe_def)
next
  case (Suc n)
  show ?case using FormatCall_mono[OF Suc] by simp
qed

lemma Format_mono:
  assumes "Format n L h p v \<noteq> OutOfFuel" "n \<le> m"
  shows "Format m L h p v = Format n L h p v"
  using assms(2,1)
proof (induction m rule: dec_induct)
  case base
  show ?case by simp
next
  case (step k)
  have "Format k L h p v \<noteq> OutOfFuel" using step by simp
  from fuelLeD[OF Format_Suc_mono this] step show ?case by simp
qed

lemma Format_fuelLe: "n \<le> m \<Longrightarrow> fuelLe (Format n L h) (Format m L h)"
  unfolding fuelLe_def using Format_mono by blast

section \<open>Format never runs forever\<close>

lemma andThen_terminates:
  fixes A :: "nat \<Rightarrow> 'a outcome" and B :: "nat \<Rightarrow> 'a \<Rightarrow> 'b outcome"
  assumes a: "\<exists>n. A n \<noteq> OutOfFuel"
    and monoA: "\<And>n m. n \<le> m \<Longrightarrow> A n \<noteq> OutOfFuel \<Longrightarrow> A m = A n"
    and b: "\<And>x n0. A n0 = Return x \<Longrightarrow> \<exists>n. B n x \<noteq> OutOfFuel"
    and monoB: "\<And>n m x. n \<le> m \<Longrightarrow> B n x \<noteq> OutOfFuel \<Longrightarrow> B m x = B n x"
  shows "\<exists>n. andThen (A n) (B n) \<noteq> OutOfFuel"
proof -
  from a obtain n1 where n1: "A n1 \<noteq> OutOfFuel" by blast
  show ?thesis
  proof (cases "A n1")
    case (Return x)
    from b[OF Return] obtain n2 where n2: "B n2 x \<noteq> OutOfFuel" by blast
    have "A (max n1 n2) = Return x"
      using monoA[of n1 "max n1 n2", OF max.cobounded1 n1] Return by simp
    moreover have "B (max n1 n2) x = B n2 x"
      using monoB[of n2 "max n1 n2" x, OF max.cobounded2 n2] by simp
    ultimately have "andThen (A (max n1 n2)) (B (max n1 n2)) \<noteq> OutOfFuel" using n2 by simp
    then show ?thesis by blast
  next
    case (Panic e)
    then have "andThen (A n1) (B n1) \<noteq> OutOfFuel" by simp
    then show ?thesis by blast
  next
    case OutOfFuel
    then show ?thesis using n1 by simp
  qed
qed

lemma forEach_terminates:
  fixes body :: "nat \<Rightarrow> 'a \<Rightarrow> Printer \<Rightarrow> Printer outcome"
  assumes mono: "\<And>n m x q. n \<le> m \<Longrightarrow> body n x q \<noteq> OutOfFuel \<Longrightarrow> body m x q = body n x q"
    and grow: "\<And>n x q q'. body n x q = Return q' \<Longrightarrow> visited q \<subseteq> visited q'"
    and step: "\<And>x q. x \<in> set xs \<Longrightarrow> visited p \<subseteq> visited q \<Longrightarrow> \<exists>n. body n x q \<noteq> OutOfFuel"
  shows "\<exists>n. forEach (body n) xs p \<noteq> OutOfFuel"
  using step
proof (induction xs arbitrary: p)
  case Nil
  show ?case by simp
next
  case (Cons x xs)
  have "\<exists>n. andThen (body n x p) (forEach (body n) xs) \<noteq> OutOfFuel"
  proof (rule andThen_terminates)
    show "\<exists>n. body n x p \<noteq> OutOfFuel" using Cons.prems[of x p] by simp
    show "\<And>n m. n \<le> m \<Longrightarrow> body n x p \<noteq> OutOfFuel \<Longrightarrow> body m x p = body n x p"
      by (rule mono)
    show "\<exists>n. forEach (body n) xs q \<noteq> OutOfFuel" if "body n0 x p = Return q" for q n0
    proof (rule Cons.IH)
      fix y and q' :: Printer assume "y \<in> set xs" "visited q \<subseteq> visited q'"
      moreover have "visited p \<subseteq> visited q" using grow[OF that] .
      ultimately show "\<exists>n. body n y q' \<noteq> OutOfFuel" using Cons.prems[of y q'] by auto
    qed
    show "forEach (body m) xs q = forEach (body n) xs q"
      if "n \<le> m" "forEach (body n) xs q \<noteq> OutOfFuel" for n m q
      by (rule forEach_mono[OF _ that(2)]) (rule mono[OF that(1)])
  qed
  then show ?case by simp
qed

lemma Format_visited:
  "Format n L h p v = Return (s, p') \<Longrightarrow> visited p \<subseteq> visited p'"
  using Format_grows[of n L h] by (rule growsD)

text \<open>A body that calls \<open>Format\<close> once and then only prints.\<close>

lemma call_terminates:
  assumes "\<exists>n. Format n L h q v \<noteq> OutOfFuel" and "\<And>r. k r \<noteq> OutOfFuel"
  shows "\<exists>n. andThen (Format n L h q v) k \<noteq> OutOfFuel"
proof -
  from assms(1) obtain n where "Format n L h q v \<noteq> OutOfFuel" by blast
  then have "andThen (Format n L h q v) k \<noteq> OutOfFuel"
    using assms(2) by (cases "Format n L h q v") simp_all
  then show ?thesis by blast
qed

lemma printField_terminates:
  assumes "\<exists>n. Format n L h q (ro \<or> PkgPath (fst fv) \<noteq> [], snd fv) \<noteq> OutOfFuel"
  shows "\<exists>n. printField (Format n L h) ro fv q \<noteq> OutOfFuel"
proof -
  obtain f x where fv: "fv = (f, x)" by (cases fv)
  show ?thesis unfolding printField_def Let_def fv prod.case
    by (rule call_terminates) (use assms fv in auto)
qed

lemma printInlineElem_terminates:
  assumes "\<exists>n. Format n L h q (ro, e) \<noteq> OutOfFuel"
  shows "\<exists>n. printInlineElem (Format n L h) ro e q \<noteq> OutOfFuel"
  unfolding printInlineElem_def by (rule call_terminates) (use assms in auto)

lemma printLineElem_terminates:
  assumes "\<exists>n. Format n L h q (ro, e) \<noteq> OutOfFuel"
  shows "\<exists>n. printLineElem (Format n L h) ro e q \<noteq> OutOfFuel"
  unfolding printLineElem_def by (rule call_terminates) (use assms in auto)

lemma printGroupedElem_terminates:
  assumes "\<And>q'. visited q' = visited q \<Longrightarrow> \<exists>n. Format n L h q' (ro, snd ie) \<noteq> OutOfFuel"
  shows "\<exists>n. printGroupedElem (Format n L h) ro g len ie q \<noteq> OutOfFuel"
proof -
  obtain i e where ie: "ie = (i, e)" by (cases ie)
  show ?thesis unfolding printGroupedElem_def Let_def ie prod.case
    by (rule call_terminates) (use assms ie in \<open>auto simp: Let_def\<close>)
qed

lemma printMapEntry_terminates:
  assumes "\<And>q' rv. visited q \<subseteq> visited q' \<Longrightarrow> \<exists>n. Format n L h q' rv \<noteq> OutOfFuel"
  shows "\<exists>n. printMapEntry (Format n L h) ro e q \<noteq> OutOfFuel"
  unfolding printMapEntry_def
proof (rule andThen_terminates)
  show "\<exists>n. Format n L h q (ro, fst e) \<noteq> OutOfFuel" using assms[of q] by simp
  show "\<And>n m. n \<le> m \<Longrightarrow> Format n L h q (ro, fst e) \<noteq> OutOfFuel \<Longrightarrow>
          Format m L h q (ro, fst e) = Format n L h q (ro, fst e)"
    using Format_mono by blast
  show "\<exists>n. (case x of (ks, p1) \<Rightarrow> andThen (Format n L h p1 (ro, snd e)) (\<lambda>(vs, p2).
          Return (IndentPrint p2 (ks @ '':'' @ [CHR 0x09] @ vs @ '','' @ [CHR 0x0A])))) \<noteq> OutOfFuel"
    if "Format n0 L h q (ro, fst e) = Return x" for x n0
  proof -
    obtain ks p1 where x: "x = (ks, p1)" by (cases x)
    have "visited q \<subseteq> visited p1" using that x Format_visited by blast
    then have "\<exists>n. Format n L h p1 (ro, snd e) \<noteq> OutOfFuel" using assms by simp
    then have "\<exists>n. andThen (Format n L h p1 (ro, snd e)) (\<lambda>(vs, p2).
          Return (IndentPrint p2 (ks @ '':'' @ [CHR 0x09] @ vs @ '','' @ [CHR 0x0A]))) \<noteq> OutOfFuel"
      by (rule call_terminates) auto
    then show ?thesis using x by simp
  qed
  show "(case x of (ks, p1) \<Rightarrow> andThen (Format m L h p1 (ro, snd e)) (\<lambda>(vs, p2).
          Return (IndentPrint p2 (ks @ '':'' @ [CHR 0x09] @ vs @ '','' @ [CHR 0x0A]))))
      = (case x of (ks, p1) \<Rightarrow> andThen (Format n L h p1 (ro, snd e)) (\<lambda>(vs, p2).
          Return (IndentPrint p2 (ks @ '':'' @ [CHR 0x09] @ vs @ '','' @ [CHR 0x0A]))))"
    if "n \<le> m" "(case x of (ks, p1) \<Rightarrow> andThen (Format n L h p1 (ro, snd e)) (\<lambda>(vs, p2).
          Return (IndentPrint p2 (ks @ '':'' @ [CHR 0x09] @ vs @ '','' @ [CHR 0x0A])))) \<noteq> OutOfFuel"
    for n m x
  proof -
    obtain ks p1 where x: "x = (ks, p1)" by (cases x)
    have "Format n L h p1 (ro, snd e) \<noteq> OutOfFuel"
      using that(2) x by (auto simp: andThen_OutOfFuel_iff)
    then have "Format m L h p1 (ro, snd e) = Format n L h p1 (ro, snd e)"
      using Format_mono that(1) by blast
    then show ?thesis using x by simp
  qed
qed

lemmas Format_family_mono =
  printMapEntry_mono[OF Format_fuelLe] printField_mono[OF Format_fuelLe]
  printInlineElem_mono[OF Format_fuelLe] printLineElem_mono[OF Format_fuelLe]
  printGroupedElem_mono[OF Format_fuelLe]

lemma printMap_terminates:
  assumes "\<And>a q rv. a \<in> addrs h \<Longrightarrow> a \<notin> visited p \<Longrightarrow> insert a (visited p) \<subseteq> visited q
              \<Longrightarrow> \<exists>n. Format n L h q rv \<noteq> OutOfFuel"
  shows "\<exists>n. printMap (Format n L h) h p \<noteq> OutOfFuel"
proof -
  obtain ro v where pv: "pvalue p = (ro, v)" by (cases "pvalue p")
  show ?thesis
  proof (cases v)
    case (VMap t a)
    show ?thesis
    proof (cases "length (MapEntries h a) = 0 \<or> a \<in> visited p")
      case True
      then show ?thesis using pv VMap by (auto simp: printMap_def)
    next
      case False
      define p2 where "p2 = indentedBegin (Print (p\<lparr>visited := insert a (visited p)\<rparr>)
                (typeString (p\<lparr>visited := insert a (visited p)\<rparr>) t @ ''{'' @ [CHR 0x0A]))"
      have v2: "visited p2 = insert a (visited p)" by (simp add: p2_def)
      have "MapEntries h a \<noteq> []" using False by simp
      then have ah: "a \<in> addrs h"
        by (auto simp: MapEntries_def addrs_def split: if_splits option.splits dest: map_of_SomeD
            intro!: image_eqI[where x = "(a, _)"])
      have "\<exists>n. forEach (printMapEntry (Format n L h) ro) (Stable entryLess (MapEntries h a)) p2
              \<noteq> OutOfFuel"
      proof (rule forEach_terminates)
        show "printMapEntry (Format m L h) ro x q = printMapEntry (Format n L h) ro x q"
          if "n \<le> m" "printMapEntry (Format n L h) ro x q \<noteq> OutOfFuel" for n m x q
          using Format_family_mono(1)[OF that] .
        show "visited q \<subseteq> visited q'" if "printMapEntry (Format n L h) ro x q = Return q'"
          for n x q q'
          using printMapEntry_visited[OF Format_grows that] .
        show "\<exists>n. printMapEntry (Format n L h) ro x q \<noteq> OutOfFuel"
          if "visited p2 \<subseteq> visited q" for x q
        proof (rule printMapEntry_terminates)
          fix q' :: Printer and rv assume "visited q \<subseteq> visited q'"
          then have "insert a (visited p) \<subseteq> visited q'" using that v2 by auto
          then show "\<exists>n. Format n L h q' rv \<noteq> OutOfFuel" using assms ah False by blast
        qed
      qed
      then obtain n where
        "forEach (printMapEntry (Format n L h) ro) (Stable entryLess (MapEntries h a)) p2
              \<noteq> OutOfFuel" by blast
      then have "printMap (Format n L h) h p \<noteq> OutOfFuel"
        using pv VMap False
        by (auto simp: printMap_def Let_def sortMap_def p2_def andThen_OutOfFuel_iff)
      then show ?thesis by blast
    qed
  qed (use pv in \<open>simp_all add: printMap_def\<close>)
qed

lemma printStruct_terminates:
  assumes "\<And>q x ro'. visited p \<subseteq> visited q \<Longrightarrow> size x < size (snd (pvalue p))
             \<Longrightarrow> \<exists>n. Format n L h q (ro', x) \<noteq> OutOfFuel"
  shows "\<exists>n. printStruct (Format n L h) L p \<noteq> OutOfFuel"
proof -
  obtain ro v where pv: "pvalue p = (ro, v)" by (cases "pvalue p")
  show ?thesis
  proof (cases v)
    case (VStruct t fs)
    define p1 where "p1 = indentedBegin (Println p (typeString p t @ ''{''))"
    have sz: "size x < size (snd (pvalue p))" if "(f, x) \<in> set fs" for f x
    proof -
      have "size x < Suc (size_list (size_prod (\<lambda>_. 0) size) fs)"
        using that by (induction fs) auto
      then show ?thesis using pv VStruct by simp
    qed
    have "\<exists>n. forEach (printField (Format n L h) ro) (filter (keepField p) fs) p1 \<noteq> OutOfFuel"
    proof (rule forEach_terminates)
      show "printField (Format m L h) ro x q = printField (Format n L h) ro x q"
        if "n \<le> m" "printField (Format n L h) ro x q \<noteq> OutOfFuel" for n m x q
        using Format_family_mono(2)[OF that] .
      show "visited q \<subseteq> visited q'" if "printField (Format n L h) ro x q = Return q'"
        for n x q q'
        using printField_visited[OF Format_grows that] .
      show "\<exists>n. printField (Format n L h) ro fv q \<noteq> OutOfFuel"
        if "fv \<in> set (filter (keepField p) fs)" "visited p1 \<subseteq> visited q" for fv q
      proof (rule printField_terminates)
        have "(fst fv, snd fv) \<in> set fs" using that(1) by simp
        from sz[OF this] that(2)
        show "\<exists>n. Format n L h q (ro \<or> PkgPath (fst fv) \<noteq> [], snd fv) \<noteq> OutOfFuel"
          using assms[of q "snd fv"] by (simp add: p1_def)
      qed
    qed
    then obtain n where
      "forEach (printField (Format n L h) ro) (filter (keepField p) fs) p1 \<noteq> OutOfFuel" by blast
    then have "printStruct (Format n L h) L p \<noteq> OutOfFuel"
      using pv VStruct by (auto simp: printStruct_def Let_def p1_def andThen_OutOfFuel_iff)
    then show ?thesis by blast
  qed (use pv in \<open>simp_all add: printStruct_def\<close>)
qed

lemma groupSizeOf_not_OutOfFuel: "groupSizeOf h rv t \<noteq> OutOfFuel"
  by (auto simp: groupSizeOf_def split: kind.splits sum.splits)

lemma printElems_terminates:
  assumes "\<And>q x. visited p \<subseteq> visited q \<Longrightarrow> x \<in> set elems
             \<Longrightarrow> \<exists>n. Format n L h q (fst (pvalue p), x) \<noteq> OutOfFuel"
  shows "\<exists>n. printElems (Format n L h) h p t elems \<noteq> OutOfFuel"
proof (cases "groupSizeOf h (pvalue p) t")
  case (Return g)
  define ro where "ro = fst (pvalue p)"
  show ?thesis
  proof (cases "length elems < g")
    case True
    show ?thesis
    proof (cases elems)
      case Nil
      then show ?thesis using Return True by (simp add: printElems_def Let_def)
    next
      case (Cons e0 es)
      have "\<exists>n. andThen (Format n L h (Print p ''{'') (ro, e0)) (\<lambda>(s, p1).
                  andThen (forEach (printInlineElem (Format n L h) ro) es (Print p1 s)) (\<lambda>p2.
                    Return (Print p2 ''}''))) \<noteq> OutOfFuel"
      proof (rule andThen_terminates)
        show "\<exists>n. Format n L h (Print p ''{'') (ro, e0) \<noteq> OutOfFuel"
          using assms[of "Print p ''{''" e0] Cons by (simp add: ro_def)
        show "\<And>n m. n \<le> m \<Longrightarrow> Format n L h (Print p ''{'') (ro, e0) \<noteq> OutOfFuel \<Longrightarrow>
                Format m L h (Print p ''{'') (ro, e0) = Format n L h (Print p ''{'') (ro, e0)"
          using Format_mono by blast
        show "\<exists>n. (case x of (s, p1) \<Rightarrow>
                  andThen (forEach (printInlineElem (Format n L h) ro) es (Print p1 s)) (\<lambda>p2.
                    Return (Print p2 ''}''))) \<noteq> OutOfFuel"
          if "Format n0 L h (Print p ''{'') (ro, e0) = Return x" for x n0
        proof -
          obtain s p1 where x: "x = (s, p1)" by (cases x)
          have v1: "visited p \<subseteq> visited p1" using that x Format_visited[of n0 L h "Print p ''{''"] by simp
          have "\<exists>n. forEach (printInlineElem (Format n L h) ro) es (Print p1 s) \<noteq> OutOfFuel"
          proof (rule forEach_terminates)
            show "printInlineElem (Format m L h) ro y q = printInlineElem (Format n L h) ro y q"
              if "n \<le> m" "printInlineElem (Format n L h) ro y q \<noteq> OutOfFuel" for n m y q
              using Format_family_mono(3)[OF that] .
            show "visited q \<subseteq> visited q'" if "printInlineElem (Format n L h) ro y q = Return q'"
              for n y q q'
              using printInlineElem_visited[OF Format_grows that] .
            show "\<exists>n. printInlineElem (Format n L h) ro y q \<noteq> OutOfFuel"
              if "y \<in> set es" "visited (Print p1 s) \<subseteq> visited q" for y q
              by (rule printInlineElem_terminates)
                 (use that v1 assms[of q y] Cons in \<open>auto simp: ro_def\<close>)
          qed
          then obtain n where "forEach (printInlineElem (Format n L h) ro) es (Print p1 s) \<noteq> OutOfFuel"
            by blast
          then have "(case x of (s, p1) \<Rightarrow>
                  andThen (forEach (printInlineElem (Format n L h) ro) es (Print p1 s)) (\<lambda>p2.
                    Return (Print p2 ''}''))) \<noteq> OutOfFuel"
            using x by (auto simp: andThen_OutOfFuel_iff)
          then show ?thesis by blast
        qed
        show "(case x of (s, p1) \<Rightarrow>
                  andThen (forEach (printInlineElem (Format m L h) ro) es (Print p1 s)) (\<lambda>p2.
                    Return (Print p2 ''}'')))
            = (case x of (s, p1) \<Rightarrow>
                  andThen (forEach (printInlineElem (Format n L h) ro) es (Print p1 s)) (\<lambda>p2.
                    Return (Print p2 ''}'')))"
          if "n \<le> m" "(case x of (s, p1) \<Rightarrow>
                  andThen (forEach (printInlineElem (Format n L h) ro) es (Print p1 s)) (\<lambda>p2.
                    Return (Print p2 ''}''))) \<noteq> OutOfFuel" for n m x
        proof -
          obtain s p1 where x: "x = (s, p1)" by (cases x)
          have "forEach (printInlineElem (Format n L h) ro) es (Print p1 s) \<noteq> OutOfFuel"
            using that(2) x by (auto simp: andThen_OutOfFuel_iff)
          then have "forEach (printInlineElem (Format m L h) ro) es (Print p1 s)
              = forEach (printInlineElem (Format n L h) ro) es (Print p1 s)"
            by (rule forEach_mono[rotated]) (rule Format_family_mono(3)[OF that(1)])
          then show ?thesis using x by simp
        qed
      qed
      then show ?thesis using Return True Cons by (simp add: printElems_def ro_def Let_def)
    qed
  next
    case False
    define p1 where "p1 = indentedBegin (Println p ''{'')"
    show ?thesis
    proof (cases "g > 0")
      case True
      have "\<exists>n. forEach (printGroupedElem (Format n L h) ro g (length elems))
                   (zip [0..<length elems] elems) p1 \<noteq> OutOfFuel"
      proof (rule forEach_terminates)
        show "printGroupedElem (Format m L h) ro g (length elems) y q
            = printGroupedElem (Format n L h) ro g (length elems) y q"
          if "n \<le> m" "printGroupedElem (Format n L h) ro g (length elems) y q \<noteq> OutOfFuel"
          for n m y q
          using Format_family_mono(5)[OF that] .
        show "visited q \<subseteq> visited q'"
          if "printGroupedElem (Format n L h) ro g (length elems) y q = Return q'" for n y q q'
          using printGroupedElem_visited[OF Format_grows that] .
        show "\<exists>n. printGroupedElem (Format n L h) ro g (length elems) y q \<noteq> OutOfFuel"
          if "y \<in> set (zip [0..<length elems] elems)" "visited p1 \<subseteq> visited q" for y q
        proof (rule printGroupedElem_terminates)
          fix q' :: Printer assume "visited q' = visited q"
          moreover have "snd y \<in> set elems" using that(1) by (metis in_set_zipE prod.collapse)
          ultimately show "\<exists>n. Format n L h q' (ro, snd y) \<noteq> OutOfFuel"
            using assms[of q' "snd y"] that(2) by (simp add: p1_def ro_def)
        qed
      qed
      then obtain n where "forEach (printGroupedElem (Format n L h) ro g (length elems))
                   (zip [0..<length elems] elems) p1 \<noteq> OutOfFuel" by blast
      then have "printElems (Format n L h) h p t elems \<noteq> OutOfFuel"
        using Return False True
        by (auto simp: printElems_def ro_def p1_def Let_def andThen_OutOfFuel_iff)
      then show ?thesis by blast
    next
      case g0: False
      have "\<exists>n. forEach (printLineElem (Format n L h) ro) elems p1 \<noteq> OutOfFuel"
      proof (rule forEach_terminates)
        show "printLineElem (Format m L h) ro y q = printLineElem (Format n L h) ro y q"
          if "n \<le> m" "printLineElem (Format n L h) ro y q \<noteq> OutOfFuel" for n m y q
          using Format_family_mono(4)[OF that] .
        show "visited q \<subseteq> visited q'" if "printLineElem (Format n L h) ro y q = Return q'"
          for n y q q'
          using printLineElem_visited[OF Format_grows that] .
        show "\<exists>n. printLineElem (Format n L h) ro y q \<noteq> OutOfFuel"
          if "y \<in> set elems" "visited p1 \<subseteq> visited q" for y q
          by (rule printLineElem_terminates)
             (use that assms[of q y] in \<open>auto simp: ro_def p1_def\<close>)
      qed
      then obtain n where "forEach (printLineElem (Format n L h) ro) elems p1 \<noteq> OutOfFuel"
        by blast
      then have "printElems (Format n L h) h p t elems \<noteq> OutOfFuel"
        using Return False g0
        by (auto simp: printElems_def ro_def p1_def Let_def andThen_OutOfFuel_iff)
      then show ?thesis by blast
    qed
  qed
qed (use groupSizeOf_not_OutOfFuel[of h "pvalue p" t] in \<open>simp_all add: printElems_def Let_def\<close>)

lemma printSlice_terminates:
  assumes addr: "\<And>a q rv. a \<in> addrs h \<Longrightarrow> a \<notin> visited p \<Longrightarrow> insert a (visited p) \<subseteq> visited q
              \<Longrightarrow> \<exists>n. Format n L h q rv \<noteq> OutOfFuel"
    and sub: "\<And>q x ro'. visited p \<subseteq> visited q \<Longrightarrow> size x < size (snd (pvalue p))
             \<Longrightarrow> \<exists>n. Format n L h q (ro', x) \<noteq> OutOfFuel"
  shows "\<exists>n. printSlice (Format n L h) h p \<noteq> OutOfFuel"
proof (cases "snd (pvalue p)")
  case (VSlice t a len)
  show ?thesis
  proof (cases "a = 0 \<or> length (SliceElems h a len) = 0 \<or> a \<in> visited p
                \<or> length (SliceElems h a len) > 1024")
    case True
    then show ?thesis using VSlice by (auto simp: printSlice_def Let_def)
  next
    case False
    then have "SliceElems h a len \<noteq> []" by auto
    then have ah: "a \<in> addrs h"
      by (auto simp: SliceElems_def addrs_def split: if_splits option.splits dest: map_of_SomeD
          intro!: image_eqI[where x = "(a, _)"])
    have "\<exists>n. printElems (Format n L h) h (p\<lparr>visited := insert a (visited p)\<rparr>) t
                 (SliceElems h a len) \<noteq> OutOfFuel"
      by (rule printElems_terminates) (use addr ah False in auto)
    then show ?thesis using VSlice False by (auto simp: printSlice_def Let_def)
  qed
next
  case (VArray t xs)
  show ?thesis
  proof (cases "length xs = 0 \<or> length xs > 1024")
    case True
    then show ?thesis using VArray by (auto simp: printSlice_def)
  next
    case False
    have sz: "size x < size (snd (pvalue p))" if "x \<in> set xs" for x
    proof -
      have "size x < Suc (size_list size xs)" using that by (induction xs) auto
      then show ?thesis using VArray by simp
    qed
    have "\<exists>n. printElems (Format n L h) h p t xs \<noteq> OutOfFuel"
      by (rule printElems_terminates) (use sub sz in auto)
    then show ?thesis using VArray False by (auto simp: printSlice_def)
  qed
qed (simp_all add: printSlice_def)

lemma printInterface_terminates:
  assumes "\<And>q x ro'. visited p \<subseteq> visited q \<Longrightarrow> size x < size (snd (pvalue p))
             \<Longrightarrow> \<exists>n. Format n L h q (ro', x) \<noteq> OutOfFuel"
  shows "\<exists>n. printInterface (Format n L h) p \<noteq> OutOfFuel"
proof -
  obtain ro v where pv: "pvalue p = (ro, v)" by (cases "pvalue p")
  show ?thesis
  proof (cases v)
    case (VInterface t e)
    show ?thesis
    proof (cases "Kind e = KInvalid \<or> e = VInvalid")
      case True
      then show ?thesis using pv VInterface by (auto simp: printInterface_def)
    next
      case False
      have "\<exists>n. andThen (Format n L h p (ro, e)) (\<lambda>(s, p1). Return (Print p1 s)) \<noteq> OutOfFuel"
        by (rule call_terminates) (use assms[of p e ro] pv VInterface in auto)
      then show ?thesis using pv VInterface False by (auto simp: printInterface_def)
    qed
  qed (use pv in \<open>simp_all add: printInterface_def\<close>)
qed

lemma printPtr_terminates:
  assumes "\<And>a q rv. a \<in> addrs h \<Longrightarrow> a \<notin> visited p \<Longrightarrow> insert a (visited p) \<subseteq> visited q
              \<Longrightarrow> \<exists>n. Format n L h q rv \<noteq> OutOfFuel"
  shows "\<exists>n. printPtr (Format n L h) h p \<noteq> OutOfFuel"
proof -
  obtain ro v where pv: "pvalue p = (ro, v)" by (cases "pvalue p")
  show ?thesis
  proof (cases v)
    case (VPtr t a)
    show ?thesis
    proof (cases "a \<in> visited p \<or> PtrElem h a = VInvalid")
      case True
      then show ?thesis using pv VPtr
        by (auto simp: printPtr_def Let_def split: option.splits)
    next
      case False
      have a0: "a \<noteq> 0" using False by (cases "a = 0") (auto simp: PtrElem_def)
      have ah: "a \<in> addrs h" using False
        by (auto simp: PtrElem_def addrs_def split: if_splits option.splits dest: map_of_SomeD
            intro!: image_eqI[where x = "(a, _)"])
      have "\<exists>n. andThen (Format n L h (p\<lparr>visited := insert a (visited p)\<rparr>) (ro, PtrElem h a))
                  (\<lambda>(s, p2). Return (Print p2 (''&'' @ s))) \<noteq> OutOfFuel"
      proof (rule call_terminates)
        show "\<exists>n. Format n L h (p\<lparr>visited := insert a (visited p)\<rparr>) (ro, PtrElem h a) \<noteq> OutOfFuel"
          by (rule assms[OF ah]) (use False in simp_all)
      qed auto
      then show ?thesis using pv VPtr False a0 by (auto simp: printPtr_def Let_def)
    qed
  qed (use pv in \<open>simp_all add: printPtr_def\<close>)
qed

lemma printQuoted_not_OutOfFuel: "printQuoted p q \<noteq> OutOfFuel"
proof (induction p q rule: printQuoted.induct)
  case (1 p quoted)
  show ?case using "1.IH"
    by (subst printQuoted.simps) (auto simp: Let_def split: option.splits)
qed

lemma printString_not_OutOfFuel: "printString L p \<noteq> OutOfFuel"
  using printQuoted_not_OutOfFuel
  by (auto simp: printString_def Let_def andThen_OutOfFuel_iff split: val.splits)

lemma raw_not_OutOfFuel: "raw L p \<noteq> OutOfFuel"
  by (auto simp: raw_def split: val.splits uintval.splits sum.splits)

lemma printValue_terminates:
  assumes addr: "\<And>a q rv. a \<in> addrs h \<Longrightarrow> a \<notin> visited p \<Longrightarrow> insert a (visited p) \<subseteq> visited q
              \<Longrightarrow> \<exists>n. Format n L h q rv \<noteq> OutOfFuel"
    and sub: "\<And>q x ro'. visited p \<subseteq> visited q \<Longrightarrow> size x < size (snd (pvalue p))
             \<Longrightarrow> \<exists>n. Format n L h q (ro', x) \<noteq> OutOfFuel"
  shows "\<exists>n. printValue (Format n L h) L h p \<noteq> OutOfFuel"
proof (cases "Kind (snd (pvalue p))")
  case KString
  then show ?thesis using printString_not_OutOfFuel by (simp add: printValue_def)
next
  case KMap
  then show ?thesis using printMap_terminates[of h p L, OF addr] by (simp add: printValue_def)
next
  case KStruct
  then show ?thesis using printStruct_terminates[of p L h, OF sub] by (simp add: printValue_def)
next
  case KArray
  then show ?thesis using printSlice_terminates[of h p L, OF addr sub] by (simp add: printValue_def)
next
  case KSlice
  then show ?thesis using printSlice_terminates[of h p L, OF addr sub] by (simp add: printValue_def)
next
  case KInterface
  then show ?thesis using printInterface_terminates[of p L h, OF sub] by (simp add: printValue_def)
next
  case KPtr
  then show ?thesis using printPtr_terminates[of h p L, OF addr] by (simp add: printValue_def)
next
  case KChan
  then show ?thesis by (auto simp: printValue_def split: val.splits)
next
  case KFunc
  then show ?thesis by (auto simp: printValue_def split: val.splits)
next
  case KUnsafePointer
  then show ?thesis by (auto simp: printValue_def split: val.splits)
qed (use raw_not_OutOfFuel[of L p] in \<open>simp_all add: printValue_def andThen_OutOfFuel_iff\<close>)

lemma finite_addrs [simp]: "finite (addrs h)"
  by (simp add: addrs_def)

lemma card_unvisited_less:
  assumes "a \<in> addrs h" "a \<notin> V" "insert a V \<subseteq> W"
  shows "card (addrs h - W) < card (addrs h - V)"
proof (rule psubset_card_mono)
  show "finite (addrs h - V)" by simp
  show "addrs h - W \<subset> addrs h - V" using assms by auto
qed

lemma card_unvisited_le:
  assumes "V \<subseteq> W"
  shows "card (addrs h - W) \<le> card (addrs h - V)"
  by (rule card_mono) (use assms in auto)

lemma Format_terminates_step:
  assumes IH1: "\<And>q rv'. card (addrs h - visited q) < card (addrs h - visited p)
                  \<Longrightarrow> \<exists>n. Format n L h q rv' \<noteq> OutOfFuel"
    and IH2: "\<And>q ro' x. visited p \<subseteq> visited q \<Longrightarrow> size x < size (snd rv)
                  \<Longrightarrow> \<exists>n. Format n L h q (ro', x) \<noteq> OutOfFuel"
  shows "\<exists>n. Format n L h p rv \<noteq> OutOfFuel"
proof -
  have "\<exists>n. printValue (Format n L h) L h (formatPrinter p rv) \<noteq> OutOfFuel"
  proof (rule printValue_terminates)
    fix a and q :: Printer and rv'
    assume "a \<in> addrs h" "a \<notin> visited (formatPrinter p rv)"
      "insert a (visited (formatPrinter p rv)) \<subseteq> visited q"
    then have "card (addrs h - visited q) < card (addrs h - visited p)"
      using card_unvisited_less[of a h "visited p" "visited q"] by simp
    then show "\<exists>n. Format n L h q rv' \<noteq> OutOfFuel" by (rule IH1)
  next
    fix q :: Printer and x :: val and ro'
    assume "visited (formatPrinter p rv) \<subseteq> visited q" "size x < size (snd (pvalue (formatPrinter p rv)))"
    then show "\<exists>n. Format n L h q (ro', x) \<noteq> OutOfFuel" using IH2[of q x ro'] by simp
  qed
  then obtain n where n: "printValue (Format n L h) L h (formatPrinter p rv) \<noteq> OutOfFuel"
    by blast
  have "Format (Suc n) L h p rv \<noteq> OutOfFuel"
    using n by (auto simp: FormatCall_def Let_def andThen_OutOfFuel_iff split: sum.splits option.splits)
  then show ?thesis by blast
qed

lemma Format_terminates_aux:
  "card (addrs h - visited p) = k \<Longrightarrow> size (snd rv) = s \<Longrightarrow> \<exists>n. Format n L h p rv \<noteq> OutOfFuel"
proof (induction k arbitrary: p rv s rule: less_induct)
  case (less k)
  note outer = less.IH
  show ?case using less.prems
  proof (induction s arbitrary: p rv rule: less_induct)
    case (less s)
    show ?case
    proof (rule Format_terminates_step)
      fix q :: Printer and rv'
      assume "card (addrs h - visited q) < card (addrs h - visited p)"
      then show "\<exists>n. Format n L h q rv' \<noteq> OutOfFuel"
        using outer[of "card (addrs h - visited q)" q rv' "size (snd rv')"] less.prems by simp
    next
      fix q :: Printer and ro' and x :: val
      assume a: "visited p \<subseteq> visited q" "size x < size (snd rv)"
      have le: "card (addrs h - visited q) \<le> k"
        using card_unvisited_le[OF a(1), of h] less.prems by simp
      show "\<exists>n. Format n L h q (ro', x) \<noteq> OutOfFuel"
      proof (cases "card (addrs h - visited q) = k")
        case True
        then show ?thesis using less.IH[of "size x" q "(ro', x)"] a(2) less.prems by simp
      next
        case False
        then show ?thesis
          using outer[of "card (addrs h - visited q)" q "(ro', x)" "size x"] le by simp
      qed
    qed
  qed
qed

theorem Format_terminates: "\<exists>n. Format n L h p rv \<noteq> OutOfFuel"
  using Format_terminates_aux[of h p _ rv] by blast

text \<open>A container that is traversed is marked, and the mark is there when the call returns.\<close>

lemma printMap_marks:
  assumes "grows F" "printMap F h p = Return p'" "snd (pvalue p) = VMap t a" "MapEntries h a \<noteq> []"
  shows "a \<in> visited p'"
proof (cases "a \<in> visited p")
  case True
  then show ?thesis using printMap_visited[OF assms(1,2)] by blast
next
  case False
  obtain ro where pv: "pvalue p = (ro, VMap t a)" using assms(3) by (cases "pvalue p") simp
  define p2 where "p2 = indentedBegin (Print (p\<lparr>visited := insert a (visited p)\<rparr>)
                          (typeString (p\<lparr>visited := insert a (visited p)\<rparr>) t @ ''{'' @ [CHR 0x0A]))"
  from assms(2) obtain sorted p3 where
    f: "forEach (printMapEntry F ro) sorted p2 = Return p3" and e: "visited p' = visited p3"
    using pv False assms(4)
    by (auto simp: printMap_def Let_def andThen_Return_iff p2_def)
  have "visited p2 \<subseteq> visited p3"
    by (rule forEach_visited[OF _ f]) (rule printMapEntry_visited[OF assms(1)])
  then show ?thesis using e by (auto simp: p2_def)
qed

lemma printSlice_marks:
  assumes "grows F" "printSlice F h p = Return p'" "snd (pvalue p) = VSlice t a len"
    "SliceElems h a len \<noteq> []"
  shows "a \<in> visited p'"
proof (cases "a \<in> visited p")
  case True
  then show ?thesis using printSlice_visited[OF assms(1,2)] by blast
next
  case False
  have a0: "a \<noteq> 0" using assms(4) by (cases "a = 0") simp_all
  show ?thesis
  proof (cases "length (SliceElems h a len) > 1024")
    case True
    then show ?thesis using assms(2,3,4) False a0 by (auto simp: printSlice_def Let_def)
  next
    case big: False
    then have "printElems F h (p\<lparr>visited := insert a (visited p)\<rparr>) t (SliceElems h a len) = Return p'"
      using assms(2,3,4) False a0 by (auto simp: printSlice_def Let_def)
    from printElems_visited[OF assms(1) this] show ?thesis by simp
  qed
qed

lemma printPtr_marks:
  assumes "grows F" "printPtr F h p = Return p'" "snd (pvalue p) = VPtr t a" "a \<noteq> 0"
  shows "a \<in> visited p'"
proof (cases "a \<in> visited p")
  case True
  then show ?thesis using printPtr_visited[OF assms(1,2)] by blast
next
  case False
  obtain ro where pv: "pvalue p = (ro, VPtr t a)" using assms(3) by (cases "pvalue p") simp
  show ?thesis
  proof (cases "PtrElem h a = VInvalid")
    case True
    then show ?thesis using assms(2,4) pv False by (auto simp: printPtr_def Let_def)
  next
    case elem: False
    then obtain s p2 where
      f: "F (p\<lparr>visited := insert a (visited p)\<rparr>) (ro, PtrElem h a) = Return (s, p2)"
      and e: "visited p' = visited p2"
      using assms(2,4) pv False by (auto simp: printPtr_def Let_def andThen_Return_iff)
    from growsD[OF assms(1) f] e show ?thesis by simp
  qed
qed

text \<open>
  C5.  \<open>Format\<close> returns or panics on every value over every heap, in particular
  on a heap on which a map, a slice or a pointer holds itself: some amount of fuel is
  enough, and more fuel gives the same result.  The visited set of the printer a call
  returns includes that of the printer it was called on.  On a printer that
  has visited address \<open>a\<close>, for a type without a \<open>PrettyPrint\<close> method, a non-empty map
  and a non-empty slice at \<open>a\<close> are rendered as the type name followed by \<open>{...}\<close>, a
  pointer to \<open>a\<close> as \<open>&\<close>, the name of the element type and \<open>{...}\<close>, with fuel for a
  single call, so that nothing is traversed.  When the call on a non-empty map, a
  non-empty slice or a non-nil pointer at \<open>a\<close> returns, \<open>a\<close> has been visited.
\<close>

theorem C5_cycle_safety:
  "(\<exists>n. Format n L h p rv \<noteq> OutOfFuel \<and> (\<forall>m\<ge>n. Format m L h p rv = Format n L h p rv))
   \<and> (\<forall>n s p'. Format n L h p rv = Return (s, p') \<longrightarrow> visited p \<subseteq> visited p')
   \<and> ((\<forall>q. PrettyPrint L q v = None) \<and> a \<in> visited p \<longrightarrow>
        (v = VMap t a \<and> MapEntries h a \<noteq> [] \<or> v = VSlice t a len \<and> SliceElems h a len \<noteq> [] \<longrightarrow>
           Format (Suc n) L h p (False, v) = Return (Flush L (typeString p t @ ''{...}''), p))
        \<and> (v = VPtr t a \<and> rtypeOf (PtrElem h a) = Some et \<longrightarrow>
           Format (Suc n) L h p (False, v)
             = Return (Flush L (''&'' @ typeString p et @ ''{...}''), p)))
   \<and> ((\<forall>q. PrettyPrint L q v = None) \<and> Format n L h p (False, v) = Return (s, p')
        \<and> (v = VMap t a \<and> MapEntries h a \<noteq> [] \<or> v = VSlice t a len \<and> SliceElems h a len \<noteq> []
             \<or> v = VPtr t a \<and> a \<noteq> 0)
        \<longrightarrow> a \<in> visited p')"
proof (intro conjI impI allI)
  obtain n where n: "Format n L h p rv \<noteq> OutOfFuel" using Format_terminates by blast
  then have "\<forall>m\<ge>n. Format m L h p rv = Format n L h p rv" using Format_mono by blast
  then show "\<exists>n. Format n L h p rv \<noteq> OutOfFuel \<and> (\<forall>m\<ge>n. Format m L h p rv = Format n L h p rv)"
    using n by blast
next
  fix n s p' assume "Format n L h p rv = Return (s, p')"
  then show "visited p \<subseteq> visited p'" by (rule Format_visited)
next
  assume a: "(\<forall>q. PrettyPrint L q v = None) \<and> a \<in> visited p"
    and v: "v = VMap t a \<and> MapEntries h a \<noteq> [] \<or> v = VSlice t a len \<and> SliceElems h a len \<noteq> []"
  from v show "Format (Suc n) L h p (False, v) = Return (Flush L (typeString p t @ ''{...}''), p)"
  proof (elim disjE conjE)
    assume m: "v = VMap t a" "MapEntries h a \<noteq> []"
    have "Format (Suc n) L h p (False, VMap t a) =
           andThen (printValue (Format n L h) L h (formatPrinter p (False, VMap t a)))
             (\<lambda>pp1. Return (StringOf L pp1, p\<lparr>visited := visited pp1\<rparr>))"
      using a m by (subst Format_Suc[where d = v]) auto
    then show ?thesis using a m
      by (simp add: printMap_def del: Format.simps)
  next
    assume m: "v = VSlice t a len" "SliceElems h a len \<noteq> []"
    then have a0: "a \<noteq> 0" by (cases "a = 0") simp_all
    have "Format (Suc n) L h p (False, VSlice t a len) =
           andThen (printValue (Format n L h) L h (formatPrinter p (False, VSlice t a len)))
             (\<lambda>pp1. Return (StringOf L pp1, p\<lparr>visited := visited pp1\<rparr>))"
      using a m by (subst Format_Suc[where d = v]) auto
    then show ?thesis using a m a0
      by (simp add: printSlice_def del: Format.simps)
  qed
next
  assume a: "(\<forall>q. PrettyPrint L q v = None) \<and> a \<in> visited p"
    and v: "v = VPtr t a \<and> rtypeOf (PtrElem h a) = Some et"
  have "Format (Suc n) L h p (False, VPtr t a) =
           andThen (printValue (Format n L h) L h (formatPrinter p (False, VPtr t a)))
             (\<lambda>pp1. Return (StringOf L pp1, p\<lparr>visited := visited pp1\<rparr>))"
    using a v by (subst Format_Suc[where d = v]) auto
  then show "Format (Suc n) L h p (False, v)
          = Return (Flush L (''&'' @ typeString p et @ ''{...}''), p)"
    using a v by (simp add: printPtr_def del: Format.simps)
next
  assume a: "(\<forall>q. PrettyPrint L q v = None) \<and> Format n L h p (False, v) = Return (s, p')
        \<and> (v = VMap t a \<and> MapEntries h a \<noteq> [] \<or> v = VSlice t a len \<and> SliceElems h a len \<noteq> []
             \<or> v = VPtr t a \<and> a \<noteq> 0)"
  then obtain k where k: "n = Suc k" by (cases n) auto
  have i: "Interface (False, v) = Inr v" using a by auto
  have "Format (Suc k) L h p (False, v) =
           andThen (printValue (Format k L h) L h (formatPrinter p (False, v)))
             (\<lambda>pp1. Return (StringOf L pp1, p\<lparr>visited := visited pp1\<rparr>))"
    using a i by (subst Format_Suc[where d = v]) auto
  then obtain pp1 where r: "printValue (Format k L h) L h (formatPrinter p (False, v)) = Return pp1"
    and e: "visited p' = visited pp1"
    using a k by (auto simp: andThen_Return_iff simp del: Format.simps)
  from a have "v = VMap t a \<and> MapEntries h a \<noteq> [] \<or> v = VSlice t a len \<and> SliceElems h a len \<noteq> []
             \<or> v = VPtr t a \<and> a \<noteq> 0" by blast
  then have "a \<in> visited pp1"
  proof (elim disjE conjE)
    assume m: "v = VMap t a" "MapEntries h a \<noteq> []"
    have "printMap (Format k L h) h (formatPrinter p (False, VMap t a)) = Return pp1"
      using r m by (simp del: Format.simps)
    from printMap_marks[OF Format_grows this _ m(2), of t] show ?thesis by simp
  next
    assume m: "v = VSlice t a len" "SliceElems h a len \<noteq> []"
    have "printSlice (Format k L h) h (formatPrinter p (False, VSlice t a len)) = Return pp1"
      using r m by (simp del: Format.simps)
    from printSlice_marks[OF Format_grows this _ m(2), of t] show ?thesis by simp
  next
    assume m: "v = VPtr t a" "a \<noteq> 0"
    have "printPtr (Format k L h) h (formatPrinter p (False, VPtr t a)) = Return pp1"
      using r m by (simp del: Format.simps)
    from printPtr_marks[OF Format_grows this _ m(2), of t] show ?thesis by simp
  qed
  then show "a \<in> visited p'" using e by simp
qed

theorem C5_cycle_safety_witness:
  "Format (Suc 0) asciilib cyclicHeap ((printerOf False False False)\<lparr>visited := {1}\<rparr>)
       (False, VMap tSelfMap 1)
     = Return (''map[string]interface {}{...}'', (printerOf False False False)\<lparr>visited := {1}\<rparr>)
   \<and> Format (Suc 0) asciilib cyclicHeap ((printerOf False False False)\<lparr>visited := {2}\<rparr>)
       (False, VSlice tAnySlice 2 1)
     = Return (''[]interface {}{...}'', (printerOf False False False)\<lparr>visited := {2}\<rparr>)
   \<and> Format (Suc 0) asciilib cyclicHeap ((printerOf False False False)\<lparr>visited := {3}\<rparr>)
       (False, VPtr tNodePtr 3)
     = Return (''&main.Node{...}'', (printerOf False False False)\<lparr>visited := {3}\<rparr>)
   \<and> Format 3 asciilib cyclicHeap (printerOf False False False) (False, VMap tSelfMap 1)
     = Return (''map[string]interface {}{'' @ [CHR 0x0A] @ ''    '' @ [CHR 0x22] @ ''self'' @ [CHR 0x22]
                 @ '': map[string]interface {}{...},'' @ [CHR 0x0A] @ ''}'',
               (printerOf False False False)\<lparr>visited := {1}\<rparr>)
   \<and> visited (printerOf False False False) \<subseteq> visited ((printerOf False False False)\<lparr>visited := {1}\<rparr>)
   \<and> 1 \<in> visited ((printerOf False False False)\<lparr>visited := {1}\<rparr>)"
proof -
  let ?P = "printerOf False False False"
  let ?s = "''map[string]interface {}{'' @ [CHR 0x0A] @ ''    '' @ [CHR 0x22] @ ''self'' @ [CHR 0x22]
                 @ '': map[string]interface {}{...},'' @ [CHR 0x0A] @ ''}''"
  have np: "\<forall>q. PrettyPrint asciilib q v = None" for v
    by (simp add: asciilib_def)
  have m: "MapEntries cyclicHeap 1 \<noteq> []" by code_simp
  have sl: "SliceElems cyclicHeap 2 1 \<noteq> []" by code_simp
  have pt: "rtypeOf (PtrElem cyclicHeap 3) = Some tNode" by code_simp
  have f1: "Flush asciilib (typeString (?P\<lparr>visited := {1}\<rparr>) tSelfMap @ ''{...}'')
              = ''map[string]interface {}{...}''" by code_simp
  have f2: "Flush asciilib (typeString (?P\<lparr>visited := {2}\<rparr>) tAnySlice @ ''{...}'')
              = ''[]interface {}{...}''" by code_simp
  have f3: "Flush asciilib (''&'' @ typeString (?P\<lparr>visited := {3}\<rparr>) tNode @ ''{...}'')
              = ''&main.Node{...}''" by code_simp
  have run: "Format 3 asciilib cyclicHeap ?P (False, VMap tSelfMap 1)
               = Return (?s, ?P\<lparr>visited := {1}\<rparr>)" by code_simp
  note A = C5_cycle_safety[where L = asciilib and h = cyclicHeap and p = "?P\<lparr>visited := {1}\<rparr>"
      and v = "VMap tSelfMap 1" and a = 1 and t = tSelfMap and n = 0,
      THEN conjunct2, THEN conjunct2, THEN conjunct1, THEN mp, THEN conjunct1, THEN mp]
  note B = C5_cycle_safety[where L = asciilib and h = cyclicHeap and p = "?P\<lparr>visited := {2}\<rparr>"
      and v = "VSlice tAnySlice 2 1" and a = 2 and t = tAnySlice and len = 1 and n = 0,
      THEN conjunct2, THEN conjunct2, THEN conjunct1, THEN mp, THEN conjunct1, THEN mp]
  note C = C5_cycle_safety[where L = asciilib and h = cyclicHeap and p = "?P\<lparr>visited := {3}\<rparr>"
      and v = "VPtr tNodePtr 3" and a = 3 and t = tNodePtr and et = tNode and n = 0,
      THEN conjunct2, THEN conjunct2, THEN conjunct1, THEN mp, THEN conjunct2, THEN mp]
  note D = C5_cycle_safety[where L = asciilib and h = cyclicHeap and p = ?P
      and rv = "(False, VMap tSelfMap 1)" and v = "VMap tSelfMap 1" and a = 1 and t = tSelfMap
      and n = 3 and s = ?s and p' = "?P\<lparr>visited := {1}\<rparr>"]
  have a: "Format (Suc 0) asciilib cyclicHeap (?P\<lparr>visited := {1}\<rparr>) (False, VMap tSelfMap 1)
     = Return (''map[string]interface {}{...}'', ?P\<lparr>visited := {1}\<rparr>)"
    using A np m by (simp only: f1) simp
  have b: "Format (Suc 0) asciilib cyclicHeap (?P\<lparr>visited := {2}\<rparr>) (False, VSlice tAnySlice 2 1)
     = Return (''[]interface {}{...}'', ?P\<lparr>visited := {2}\<rparr>)"
    using B np sl by (simp only: f2) simp
  have c: "Format (Suc 0) asciilib cyclicHeap (?P\<lparr>visited := {3}\<rparr>) (False, VPtr tNodePtr 3)
     = Return (''&main.Node{...}'', ?P\<lparr>visited := {3}\<rparr>)"
    using C np pt by (simp only: f3) simp
  have d: "visited ?P \<subseteq> visited (?P\<lparr>visited := {1}\<rparr>)"
    using D[THEN conjunct2, THEN conjunct1] run by blast
  have e: "1 \<in> visited (?P\<lparr>visited := {1}\<rparr>)"
    using D[THEN conjunct2, THEN conjunct2, THEN conjunct2] np m run by blast
  show ?thesis using a b c run d e by blast
qed

text \<open>Two heaps on which the functions that read the heap agree.\<close>

lemma assertStringSlice_heaps:
  assumes "SliceElems h' = SliceElems h"
  shows "assertStringSlice h' = assertStringSlice h"
  unfolding assertStringSlice_def assms by (rule refl)

lemma groupSizeOf_heaps:
  assumes "SliceElems h' = SliceElems h"
  shows "groupSizeOf h' = groupSizeOf h"
  unfolding groupSizeOf_def assertStringSlice_heaps[OF assms] by (rule refl)

lemma printElems_heaps:
  assumes "SliceElems h' = SliceElems h"
  shows "printElems F h' = printElems F h"
  unfolding printElems_def groupSizeOf_heaps[OF assms] by (rule refl)

lemma printSlice_heaps:
  assumes "SliceElems h' = SliceElems h"
  shows "printSlice F h' = printSlice F h"
  unfolding printSlice_def printElems_heaps[OF assms] assms by (rule refl)

lemma printPtr_heaps:
  assumes "PtrElem h' = PtrElem h"
  shows "printPtr F h' = printPtr F h"
  unfolding printPtr_def assms by (rule refl)

lemma printMap_heaps:
  assumes "\<And>a. length (MapEntries h' a) = length (MapEntries h a)"
    and "sortMap h' = sortMap h"
  shows "printMap F h' = printMap F h"
  unfolding printMap_def assms by (rule refl)

lemma printValue_heaps:
  assumes "SliceElems h' = SliceElems h" "PtrElem h' = PtrElem h"
    and "\<And>a. length (MapEntries h' a) = length (MapEntries h a)"
    and "sortMap h' = sortMap h"
  shows "printValue F L h' = printValue F L h"
  unfolding printValue_def printSlice_heaps[OF assms(1)] printPtr_heaps[OF assms(2)]
    printMap_heaps[of h' h, OF assms(3,4)]
  by (rule refl)

lemma Format_heaps:
  assumes "SliceElems h' = SliceElems h" "PtrElem h' = PtrElem h"
    and "\<And>a. length (MapEntries h' a) = length (MapEntries h a)"
    and "sortMap h' = sortMap h"
  shows "Format n L h' = Format n L h"
proof (induction n)
  case 0
  show ?case by simp
next
  case (Suc n)
  show ?case
    unfolding Format.simps FormatCall_def Suc printValue_heaps[of h' h, OF assms] by (rule refl)
qed

text \<open>Entries with distinct keys that \<open>Less\<close> orders are sorted the same from every order.\<close>

lemma Stable_entries:
  assumes m: "mset ys = mset xs" and d: "distinct (map fst xs)"
    and tot: "\<forall>k1\<in>fst ` set xs. \<forall>k2\<in>fst ` set xs. k1 \<noteq> k2 \<longrightarrow> Less k1 k2 \<or> Less k2 k1"
  shows "Stable entryLess ys = Stable entryLess xs"
proof (rule Stable_permutation[OF entryLess_irrefl entryLess_trans _ _ m])
  show "distinct xs" using d by (simp add: distinct_map)
  show "\<forall>x\<in>set xs. \<forall>y\<in>set xs. x \<noteq> y \<longrightarrow> entryLess x y \<or> entryLess y x"
  proof (intro ballI impI)
    fix x y assume x: "x \<in> set xs" and y: "y \<in> set xs" and ne: "x \<noteq> y"
    have "inj_on fst (set xs)" using d by (simp add: distinct_map)
    then have "fst x \<noteq> fst y" using x y ne by (auto dest: inj_onD)
    then show "entryLess x y \<or> entryLess y x"
      using tot x y by (auto simp: entryLess_def)
  qed
qed

text \<open>
  C2.  Two heaps that hold the same slices and pointer targets, and at every
  address maps with the same entries: if every map that the two heaps enumerate in
  different orders has each key once, and \<open>Less\<close> orders every two different keys of
  it one way or the other, then \<open>Format\<close> gives the same result on both heaps, for
  every value, printer and amount of fuel.
\<close>

theorem C2_map_determinism:
  assumes "sliceData h' = sliceData h" and "ptrData h' = ptrData h"
    and "\<forall>a. MapEntries h' a = MapEntries h a \<or>
           mset (MapEntries h' a) = mset (MapEntries h a) \<and> distinct (map fst (MapEntries h a)) \<and>
           (\<forall>k1\<in>fst ` set (MapEntries h a). \<forall>k2\<in>fst ` set (MapEntries h a).
              k1 \<noteq> k2 \<longrightarrow> Less k1 k2 \<or> Less k2 k1)"
  shows "Format n L h' p v = Format n L h p v"
proof -
  have s: "SliceElems h' = SliceElems h"
    by (intro ext) (simp add: SliceElems_def assms(1))
  have e: "PtrElem h' = PtrElem h"
    by (intro ext) (simp add: PtrElem_def assms(2))
  have st: "Stable entryLess (MapEntries h' a) = Stable entryLess (MapEntries h a)" for a
    using assms(3)[rule_format, of a] Stable_entries[of "MapEntries h' a" "MapEntries h a"]
    by auto
  have l: "length (MapEntries h' a) = length (MapEntries h a)" for a
    using st[of a] length_Stable[of entryLess "MapEntries h' a"]
      length_Stable[of entryLess "MapEntries h a"] by simp
  have so: "sortMap h' = sortMap h"
    by (intro ext) (simp add: sortMap_def st split: val.splits)
  show ?thesis using Format_heaps[of h' h, OF s e l so] by simp
qed

theorem C2_map_determinism_witness:
  "MapEntries intMapHeap' 1 = rev (MapEntries intMapHeap 1)
   \<and> Format 3 asciilib intMapHeap (printerOf False False False) (False, VMap tIntMap 1)
     = Return (''map[int]string{'' @ [CHR 0x0A] @ ''    1:  '' @ [CHR 0x22] @ ''a'' @ [CHR 0x22] @ '',''
                 @ [CHR 0x0A] @ ''    2:  '' @ [CHR 0x22] @ ''b'' @ [CHR 0x22] @ '','' @ [CHR 0x0A] @ ''}'',
               (printerOf False False False)\<lparr>visited := {1}\<rparr>)
   \<and> Format 3 asciilib intMapHeap' (printerOf False False False) (False, VMap tIntMap 1)
     = Return (''map[int]string{'' @ [CHR 0x0A] @ ''    1:  '' @ [CHR 0x22] @ ''a'' @ [CHR 0x22] @ '',''
                 @ [CHR 0x0A] @ ''    2:  '' @ [CHR 0x22] @ ''b'' @ [CHR 0x22] @ '','' @ [CHR 0x0A] @ ''}'',
               (printerOf False False False)\<lparr>visited := {1}\<rparr>)"
proof -
  have r: "MapEntries intMapHeap' 1 = rev (MapEntries intMapHeap 1)" by code_simp
  have run: "Format 3 asciilib intMapHeap (printerOf False False False) (False, VMap tIntMap 1)
     = Return (''map[int]string{'' @ [CHR 0x0A] @ ''    1:  '' @ [CHR 0x22] @ ''a'' @ [CHR 0x22] @ '',''
                 @ [CHR 0x0A] @ ''    2:  '' @ [CHR 0x22] @ ''b'' @ [CHR 0x22] @ '','' @ [CHR 0x0A] @ ''}'',
               (printerOf False False False)\<lparr>visited := {1}\<rparr>)"
    by code_simp
  have 1: "sliceData intMapHeap' = sliceData intMapHeap"
    by (simp add: intMapHeap_def intMapHeap'_def)
  have 2: "ptrData intMapHeap' = ptrData intMapHeap"
    by (simp add: intMapHeap_def intMapHeap'_def)
  have other: "MapEntries intMapHeap' a = MapEntries intMapHeap a" if "a \<noteq> 1" for a
    using that by (simp add: MapEntries_def intMapHeap_def intMapHeap'_def)
  have m: "mset (MapEntries intMapHeap' 1) = mset (MapEntries intMapHeap 1)"
    unfolding r by (rule mset_rev)
  have d: "distinct (map fst (MapEntries intMapHeap 1))" by code_simp
  have t: "\<forall>k1\<in>fst ` set (MapEntries intMapHeap 1). \<forall>k2\<in>fst ` set (MapEntries intMapHeap 1).
              k1 \<noteq> k2 \<longrightarrow> Less k1 k2 \<or> Less k2 k1"
    by code_simp
  have 3: "\<forall>a. MapEntries intMapHeap' a = MapEntries intMapHeap a \<or>
           mset (MapEntries intMapHeap' a) = mset (MapEntries intMapHeap a)
           \<and> distinct (map fst (MapEntries intMapHeap a)) \<and>
           (\<forall>k1\<in>fst ` set (MapEntries intMapHeap a). \<forall>k2\<in>fst ` set (MapEntries intMapHeap a).
              k1 \<noteq> k2 \<longrightarrow> Less k1 k2 \<or> Less k2 k1)"
  proof
    fix a show "MapEntries intMapHeap' a = MapEntries intMapHeap a \<or>
           mset (MapEntries intMapHeap' a) = mset (MapEntries intMapHeap a)
           \<and> distinct (map fst (MapEntries intMapHeap a)) \<and>
           (\<forall>k1\<in>fst ` set (MapEntries intMapHeap a). \<forall>k2\<in>fst ` set (MapEntries intMapHeap a).
              k1 \<noteq> k2 \<longrightarrow> Less k1 k2 \<or> Less k2 k1)"
      using other[of a] m d t by (cases "a = 1") blast+
  qed
  show ?thesis
    using C2_map_determinism[OF 1 2 3, of 3 asciilib "printerOf False False False"
        "(False, VMap tIntMap 1)"] r run
    by simp
qed

text \<open>
  Without the condition on the keys the results differ: the keys of a
  \<open>map[interface {}]string\<close> are of kind interface, none of them is less than another,
  and the entries are printed in the order in which the map enumerates them.
\<close>

theorem C2_counterexample:
  "sliceData anyMapHeap' = sliceData anyMapHeap \<and> ptrData anyMapHeap' = ptrData anyMapHeap
   \<and> (\<forall>a. mset (MapEntries anyMapHeap' a) = mset (MapEntries anyMapHeap a))
   \<and> Format 3 asciilib anyMapHeap (printerOf False False False) (False, VMap tAnyMap 1)
     = Return (''map[interface {}]string{'' @ [CHR 0x0A] @ ''    1:  '' @ [CHR 0x22] @ ''a'' @ [CHR 0x22] @ '',''
                 @ [CHR 0x0A] @ ''    2:  '' @ [CHR 0x22] @ ''b'' @ [CHR 0x22] @ '','' @ [CHR 0x0A] @ ''}'',
               (printerOf False False False)\<lparr>visited := {1}\<rparr>)
   \<and> Format 3 asciilib anyMapHeap' (printerOf False False False) (False, VMap tAnyMap 1)
     = Return (''map[interface {}]string{'' @ [CHR 0x0A] @ ''    2:  '' @ [CHR 0x22] @ ''b'' @ [CHR 0x22] @ '',''
                 @ [CHR 0x0A] @ ''    1:  '' @ [CHR 0x22] @ ''a'' @ [CHR 0x22] @ '','' @ [CHR 0x0A] @ ''}'',
               (printerOf False False False)\<lparr>visited := {1}\<rparr>)"
proof (intro conjI allI)
  show "sliceData anyMapHeap' = sliceData anyMapHeap" by (simp add: anyMapHeap_def anyMapHeap'_def)
  show "ptrData anyMapHeap' = ptrData anyMapHeap" by (simp add: anyMapHeap_def anyMapHeap'_def)
  show "mset (MapEntries anyMapHeap' a) = mset (MapEntries anyMapHeap a)" for a
    by (simp add: MapEntries_def anyMapHeap_def anyMapHeap'_def)
  show "Format 3 asciilib anyMapHeap (printerOf False False False) (False, VMap tAnyMap 1)
     = Return (''map[interface {}]string{'' @ [CHR 0x0A] @ ''    1:  '' @ [CHR 0x22] @ ''a'' @ [CHR 0x22] @ '',''
                 @ [CHR 0x0A] @ ''    2:  '' @ [CHR 0x22] @ ''b'' @ [CHR 0x22] @ '','' @ [CHR 0x0A] @ ''}'',
               (printerOf False False False)\<lparr>visited := {1}\<rparr>)"
    by code_simp
  show "Format 3 asciilib anyMapHeap' (printerOf False False False) (False, VMap tAnyMap 1)
     = Return (''map[interface {}]string{'' @ [CHR 0x0A] @ ''    2:  '' @ [CHR 0x22] @ ''b'' @ [CHR 0x22] @ '',''
                 @ [CHR 0x0A] @ ''    1:  '' @ [CHR 0x22] @ ''a'' @ [CHR 0x22] @ '','' @ [CHR 0x0A] @ ''}'',
               (printerOf False False False)\<lparr>visited := {1}\<rparr>)"
    by code_simp
qed

lemma Print_Print: "Print (Print p a) b = Print p (a @ b)"
  by (simp add: Print_def)

lemma Print_Nil: "Print p [] = p"
  by (simp add: Print_def)

lemma Print_fields [simp]:
  "depth (Print p s) = depth p" "colorScheme (Print p s) = colorScheme p"
  "decimalUint (Print p s) = decimalUint p" "thousandsSeparator (Print p s) = thousandsSeparator p"
  "pvalue (Print p s) = pvalue p" "Indent (Print p s) = Indent p"
  by (simp_all add: Print_def Indent_def)

text \<open>
  The loop of \<open>printSlice\<close> over the groups, when \<open>Format\<close> of an element returns a text
  and leaves the printer as it is.
\<close>

lemma forEach_printGroupedElem:
  fixes F :: formatter
  assumes "\<And>q e. e \<in> snd ` set ies \<Longrightarrow> colorScheme q = cs \<Longrightarrow> decimalUint q = du \<Longrightarrow>
             thousandsSeparator q = ts \<Longrightarrow> F q (ro, e) = Return (txt e, q)"
    and "colorScheme q = cs" "decimalUint q = du" "thousandsSeparator q = ts"
  shows "forEach (printGroupedElem F ro g len) ies q =
           Return (Print q (concat (map (\<lambda>(i, e).
             (if i mod g = 0 then Indent q else []) @ txt e @ '',''
             @ (if Suc i mod g = 0 \<or> Suc i = len then [CHR 0x0A] else '' '')) ies)))"
  using assms
proof (induction ies arbitrary: q)
  case Nil
  show ?case by (simp add: Print_Nil)
next
  case (Cons x ies)
  obtain i e where x: "x = (i, e)" by (cases x)
  define cell where "cell = (\<lambda>(i, e).
             (if i mod g = 0 then Indent q else []) @ txt e @ '',''
             @ (if Suc i mod g = 0 \<or> Suc i = len then [CHR 0x0A] else '' ''))"
  define q1 where "q1 = (if i mod g = 0 then Print q (Indent q) else q)"
  have f: "F q1 (ro, e) = Return (txt e, q1)"
    by (rule Cons.prems(1)) (use Cons.prems(2-4) x in \<open>simp_all add: q1_def\<close>)
  have step: "printGroupedElem F ro g len x q = Return (Print q (cell x))"
    using f unfolding printGroupedElem_def x cell_def q1_def[symmetric] Let_def
    by (simp add: q1_def Print_Print Print_Nil)
  have "forEach (printGroupedElem F ro g len) ies (Print q (cell x)) =
           Return (Print (Print q (cell x)) (concat (map (\<lambda>(i, e).
             (if i mod g = 0 then Indent (Print q (cell x)) else []) @ txt e @ '',''
             @ (if Suc i mod g = 0 \<or> Suc i = len then [CHR 0x0A] else '' '')) ies)))"
    by (rule Cons.IH) (use Cons.prems in simp_all)
  then have "forEach (printGroupedElem F ro g len) ies (Print q (cell x)) =
           Return (Print q (cell x @ concat (map cell ies)))"
    by (simp add: Print_Print cell_def cong: if_cong)
  then show ?case using step by (simp add: cell_def)
qed

lemma forEach_printLineElem:
  fixes F :: formatter
  assumes "\<And>q e. e \<in> set es \<Longrightarrow> colorScheme q = cs \<Longrightarrow> decimalUint q = du \<Longrightarrow>
             thousandsSeparator q = ts \<Longrightarrow> F q (ro, e) = Return (txt e, q)"
    and "colorScheme q = cs" "decimalUint q = du" "thousandsSeparator q = ts"
  shows "forEach (printLineElem F ro) es q =
           Return (Print q (concat (map (\<lambda>e. Indent q @ txt e @ '','' @ [CHR 0x0A]) es)))"
  using assms
proof (induction es arbitrary: q)
  case Nil
  show ?case by (simp add: Print_Nil)
next
  case (Cons e es)
  have f: "F q (ro, e) = Return (txt e, q)"
    by (rule Cons.prems(1)) (use Cons.prems(2-4) in simp_all)
  have step: "printLineElem F ro e q = Return (Print q (Indent q @ txt e @ '','' @ [CHR 0x0A]))"
    using f by (simp add: printLineElem_def IndentPrint_def)
  have "forEach (printLineElem F ro) es (Print q (Indent q @ txt e @ '','' @ [CHR 0x0A])) =
           Return (Print (Print q (Indent q @ txt e @ '','' @ [CHR 0x0A]))
             (concat (map (\<lambda>y. Indent (Print q (Indent q @ txt e @ '','' @ [CHR 0x0A])) @ txt y @ '','' @ [CHR 0x0A]) es)))"
    by (rule Cons.IH) (use Cons.prems in simp_all)
  then show ?case using step by (simp add: Print_Print)
qed

lemma groupSizeOf_kinds:
  "tyElemKind t = KUint8 \<Longrightarrow> groupSizeOf h rv t = Return 16"
  "tyElemKind t = KUint16 \<Longrightarrow> groupSizeOf h rv t = Return 8"
  "tyElemKind t = KUint32 \<Longrightarrow> groupSizeOf h rv t = Return 8"
  "tyElemKind t = KUint64 \<Longrightarrow> groupSizeOf h rv t = Return 4"
  "tyElemKind t \<notin> {KUint8, KUint16, KUint32, KUint64, KString} \<Longrightarrow> groupSizeOf h rv t = Return 0"
  by (simp_all add: groupSizeOf_def split: kind.splits)

text \<open>\<open>Format\<close> of an unsigned integer without a \<open>PrettyPrint\<close> method reads the options only.\<close>

lemma Format_VUint_options:
  assumes "\<forall>q. PrettyPrint L q (VUint te u) = None"
    and "colorScheme q = colorScheme p" "decimalUint q = decimalUint p"
    and "thousandsSeparator q = thousandsSeparator p"
    and "Format (Suc n) L h p (False, VUint te u) = Return (s, p')"
  shows "Format (Suc n) L h q (False, VUint te u) = Return (s, q)"
proof -
  have r: "raw L (formatPrinter q (False, VUint te u)) = raw L (formatPrinter p (False, VUint te u))"
    unfolding raw_formatPrinter_VUint assms(3,4) by (rule refl)
  have c: "Colorize q = Colorize p" using assms(2) by (rule Colorize_cong)
  show ?thesis
    using assms(5) unfolding Format_VUint[OF assms(1)] r c
    by (cases "raw L (formatPrinter p (False, VUint te u))") auto
qed

lemma printSlice_grouped:
  fixes F :: formatter
  assumes F: "\<And>q u. u \<in> set us \<Longrightarrow> colorScheme q = colorScheme p \<Longrightarrow>
             decimalUint q = decimalUint p \<Longrightarrow> thousandsSeparator q = thousandsSeparator p \<Longrightarrow>
             F q (False, VUint te u) = Return (txt u, q)"
    and pv: "pvalue p = (False, VSlice t a len)"
    and e: "SliceElems h a len = map (VUint te) us"
    and g: "groupSizeOf h (False, VSlice t a len) t = Return g" "0 < g" "g \<le> length us"
    and l: "length us \<le> 1024" and a: "a \<notin> visited p"
  shows "printSlice F h p =
           Return (Print (p\<lparr>visited := insert a (visited p)\<rparr>)
             (''{'' @ [CHR 0x0A]
              @ concat (map (\<lambda>(i, u).
                   (if i mod g = 0 then replicate (Suc (depth p)) (CHR 0x09) else []) @ txt u @ '',''
                   @ (if Suc i mod g = 0 \<or> Suc i = length us then [CHR 0x0A] else '' ''))
                  (zip [0..<length us] us))
              @ replicate (depth p) (CHR 0x09) @ ''}''))"
proof -
  define p1 where "p1 = p\<lparr>visited := insert a (visited p)\<rparr>"
  define q0 where "q0 = indentedBegin (Println p1 ''{'')"
  define txt' where "txt' = (\<lambda>e. case e of VUint t' u \<Rightarrow> txt u | _ \<Rightarrow> [])"
  define ies where "ies = zip [0..<length us] (map (VUint te) us)"
  have ne: "us \<noteq> []" using g(2,3) by auto
  have a0: "a \<noteq> 0" using e ne by (cases "a = 0") simp_all
  have q0: "colorScheme q0 = colorScheme p" "decimalUint q0 = decimalUint p"
    "thousandsSeparator q0 = thousandsSeparator p"
    by (simp_all add: q0_def p1_def indentedBegin_def Println_def)
  have loop: "forEach (printGroupedElem F False g (length us)) ies q0 =
           Return (Print q0 (concat (map (\<lambda>(i, e).
             (if i mod g = 0 then Indent q0 else []) @ txt' e @ '',''
             @ (if Suc i mod g = 0 \<or> Suc i = length us then [CHR 0x0A] else '' '')) ies)))"
  proof (rule forEach_printGroupedElem[OF _ q0])
    fix q :: Printer and x
    assume "x \<in> snd ` set ies" and o: "colorScheme q = colorScheme p"
      "decimalUint q = decimalUint p" "thousandsSeparator q = thousandsSeparator p"
    then obtain u where "x = VUint te u" "u \<in> set us"
      by (auto simp: ies_def dest!: set_zip_rightD)
    then show "F q (False, x) = Return (txt' x, q)" using F[OF _ o] by (simp add: txt'_def)
  qed
  have cells: "map (\<lambda>(i, e).
             (if i mod g = 0 then Indent q0 else []) @ txt' e @ '',''
             @ (if Suc i mod g = 0 \<or> Suc i = length us then [CHR 0x0A] else '' '')) ies
      = map (\<lambda>(i, u).
             (if i mod g = 0 then replicate (Suc (depth p)) (CHR 0x09) else []) @ txt u @ '',''
             @ (if Suc i mod g = 0 \<or> Suc i = length us then [CHR 0x0A] else '' ''))
          (zip [0..<length us] us)"
    by (simp add: ies_def zip_map2 txt'_def q0_def p1_def Indent_def indentedBegin_def Println_def
        split_def cong: if_cong)
  have "printSlice F h p = printElems F h p1 t (map (VUint te) us)"
    using pv e a a0 ne l by (simp add: printSlice_def p1_def Let_def)
  also have "\<dots> = andThen (forEach (printGroupedElem F False g (length us)) ies q0)
                     (\<lambda>p2. Return (IndentPrint (indentedEnd p2) ''}''))"
    using pv g by (simp add: printElems_def p1_def q0_def ies_def Let_def)
  also have "\<dots> = Return (IndentPrint (indentedEnd (Print q0 (concat (map (\<lambda>(i, u).
             (if i mod g = 0 then replicate (Suc (depth p)) (CHR 0x09) else []) @ txt u @ '',''
             @ (if Suc i mod g = 0 \<or> Suc i = length us then [CHR 0x0A] else '' ''))
          (zip [0..<length us] us))))) ''}'')"
    unfolding loop cells by simp
  also have "\<dots> = Return (Print p1
             (''{'' @ [CHR 0x0A]
              @ concat (map (\<lambda>(i, u).
                   (if i mod g = 0 then replicate (Suc (depth p)) (CHR 0x09) else []) @ txt u @ '',''
                   @ (if Suc i mod g = 0 \<or> Suc i = length us then [CHR 0x0A] else '' ''))
                  (zip [0..<length us] us))
              @ replicate (depth p) (CHR 0x09) @ ''}''))"
    by (simp add: IndentPrint_def indentedEnd_def indentedBegin_def Println_def Print_def Indent_def
        q0_def p1_def)
  finally show ?thesis unfolding p1_def .
qed

text \<open>
  C7.  The group size of a slice or array is 16 for elements of kind uint8, 8 for
  uint16, 8 for uint32, 4 for uint64, and 0 for every other kind but string.  A slice
  of unsigned integers with group size \<open>g > 0\<close> and at least \<open>g\<close> and at most 1024
  elements, not visited before, without \<open>PrettyPrint\<close> methods, is rendered as \<open>{\<close> and
  a newline, then every element's text followed by a comma, then a newline after every
  \<open>g\<close>-th element and after the last one and a single space after every other
  element, with the indentation before the first element of every group, then the
  indented \<open>}\<close>.  For 20 bytes this is a line of 16 elements and a line of 4.
\<close>

theorem C7_sequence_grouping:
  "(tyElemKind t = KUint8 \<longrightarrow> groupSizeOf h rv t = Return 16)
   \<and> (tyElemKind t = KUint16 \<longrightarrow> groupSizeOf h rv t = Return 8)
   \<and> (tyElemKind t = KUint32 \<longrightarrow> groupSizeOf h rv t = Return 8)
   \<and> (tyElemKind t = KUint64 \<longrightarrow> groupSizeOf h rv t = Return 4)
   \<and> (tyElemKind t \<notin> {KUint8, KUint16, KUint32, KUint64, KString} \<longrightarrow> groupSizeOf h rv t = Return 0)
   \<and> ((\<forall>q. PrettyPrint L q (VSlice t a len) = None) \<and> (\<forall>q u. PrettyPrint L q (VUint te u) = None)
        \<and> (\<forall>u\<in>set us. Format (Suc n) L h p (False, VUint te u) = Return (elemText u, p))
        \<and> SliceElems h a len = map (VUint te) us
        \<and> groupSizeOf h (False, VSlice t a len) t = Return g \<and> 0 < g \<and> g \<le> length us
        \<and> length us \<le> 1024 \<and> a \<notin> visited p
      \<longrightarrow> Format (Suc (Suc n)) L h p (False, VSlice t a len)
            = Return (Flush L (''{'' @ [CHR 0x0A]
                @ concat (map (\<lambda>(i, u).
                     (if i mod g = 0 then replicate (Suc (depth p)) (CHR 0x09) else []) @ elemText u @ '',''
                     @ (if Suc i mod g = 0 \<or> Suc i = length us then [CHR 0x0A] else '' ''))
                    (zip [0..<length us] us))
                @ replicate (depth p) (CHR 0x09) @ ''}''),
              p\<lparr>visited := insert a (visited p)\<rparr>))"
proof (intro conjI impI)
  assume A: "(\<forall>q. PrettyPrint L q (VSlice t a len) = None) \<and> (\<forall>q u. PrettyPrint L q (VUint te u) = None)
        \<and> (\<forall>u\<in>set us. Format (Suc n) L h p (False, VUint te u) = Return (elemText u, p))
        \<and> SliceElems h a len = map (VUint te) us
        \<and> groupSizeOf h (False, VSlice t a len) t = Return g \<and> 0 < g \<and> g \<le> length us
        \<and> length us \<le> 1024 \<and> a \<notin> visited p"
  define pp where "pp = formatPrinter p (False, VSlice t a len)"
  have f: "Format (Suc (Suc n)) L h p (False, VSlice t a len) =
           andThen (printSlice (Format (Suc n) L h) h pp)
             (\<lambda>pp1. Return (StringOf L pp1, p\<lparr>visited := visited pp1\<rparr>))"
    using A unfolding pp_def
    by (subst Format_Suc[where d = "VSlice t a len"]) (simp_all del: Format.simps)
  have s: "printSlice (Format (Suc n) L h) h pp =
           Return (Print (pp\<lparr>visited := insert a (visited pp)\<rparr>)
             (''{'' @ [CHR 0x0A]
              @ concat (map (\<lambda>(i, u).
                   (if i mod g = 0 then replicate (Suc (depth pp)) (CHR 0x09) else []) @ elemText u @ '',''
                   @ (if Suc i mod g = 0 \<or> Suc i = length us then [CHR 0x0A] else '' ''))
                  (zip [0..<length us] us))
              @ replicate (depth pp) (CHR 0x09) @ ''}''))"
  proof (rule printSlice_grouped[where te = te and us = us and t = t and a = a and len = len])
    fix q :: Printer and u
    assume u: "u \<in> set us" and o: "colorScheme q = colorScheme pp" "decimalUint q = decimalUint pp"
      "thousandsSeparator q = thousandsSeparator pp"
    show "Format (Suc n) L h q (False, VUint te u) = Return (elemText u, q)"
    proof (rule Format_VUint_options[where p = p and p' = p])
      show "\<forall>q. PrettyPrint L q (VUint te u) = None" using A by blast
      show "Format (Suc n) L h p (False, VUint te u) = Return (elemText u, p)" using A u by blast
    qed (use o in \<open>simp_all add: pp_def\<close>)
  next
    show "pvalue pp = (False, VSlice t a len)" by (simp add: pp_def)
    show "SliceElems h a len = map (VUint te) us" using A by blast
    show "groupSizeOf h (False, VSlice t a len) t = Return g" using A by blast
    show "0 < g" "g \<le> length us" "length us \<le> 1024" using A by blast+
    show "a \<notin> visited pp" using A by (simp add: pp_def del: Format.simps)
  qed
  show "Format (Suc (Suc n)) L h p (False, VSlice t a len)
            = Return (Flush L (''{'' @ [CHR 0x0A]
                @ concat (map (\<lambda>(i, u).
                     (if i mod g = 0 then replicate (Suc (depth p)) (CHR 0x09) else []) @ elemText u @ '',''
                     @ (if Suc i mod g = 0 \<or> Suc i = length us then [CHR 0x0A] else '' ''))
                    (zip [0..<length us] us))
                @ replicate (depth p) (CHR 0x09) @ ''}''),
              p\<lparr>visited := insert a (visited p)\<rparr>)"
    unfolding f s by (simp add: pp_def cong: if_cong)
qed (rule groupSizeOf_kinds; assumption)+

theorem C7_sequence_grouping_witness:
  "groupSizeOf exampleHeap (False, VSlice tByteSlice 5 20) tByteSlice = Return 16
   \<and> Format (Suc (Suc 0)) asciilib exampleHeap (printerOf False False False)
       (False, VSlice tByteSlice 5 20)
     = Return (''{'' @ [CHR 0x0A]
                 @ ''    0x00, 0x01, 0x02, 0x03, 0x04, 0x05, 0x06, 0x07, 0x08, 0x09, 0x0a, 0x0b, 0x0c, 0x0d, 0x0e, 0x0f,''
                 @ [CHR 0x0A] @ ''    0x10, 0x11, 0x12, 0x13,'' @ [CHR 0x0A] @ ''}'',
               (printerOf False False False)\<lparr>visited := {5}\<rparr>)"
proof -
  let ?P = "printerOf False False False"
  let ?us = "map (\<lambda>i. U8 (of_nat i)) [0..<20]"
  let ?tx = "\<lambda>u. Sprintf_0x 2 (UintOf u)"
  let ?out = "''{'' @ [CHR 0x0A]
                @ concat (map (\<lambda>(i, u).
                     (if i mod 16 = 0 then replicate (Suc (depth ?P)) (CHR 0x09) else []) @ ?tx u @ '',''
                     @ (if Suc i mod 16 = 0 \<or> Suc i = length ?us then [CHR 0x0A] else '' ''))
                    (zip [0..<length ?us] ?us))
                @ replicate (depth ?P) (CHR 0x09) @ ''}''"
  have k: "tyElemKind tByteSlice = KUint8" by (simp add: tByteSlice_def)
  have g: "groupSizeOf exampleHeap (False, VSlice tByteSlice 5 20) tByteSlice = Return 16"
    using C7_sequence_grouping[where t = tByteSlice and h = exampleHeap
        and rv = "(False, VSlice tByteSlice 5 20)", THEN conjunct1] k
    by blast
  have np: "\<forall>q. PrettyPrint asciilib q v = None" for v
    by (simp add: asciilib_def)
  have np2: "\<forall>q u. PrettyPrint asciilib q (VUint tUint8 u) = None"
    by (simp add: asciilib_def)
  have el: "\<forall>u\<in>set ?us. Format (Suc 0) asciilib exampleHeap ?P (False, VUint tUint8 u)
              = Return (?tx u, ?P)"
    by code_simp
  have se: "SliceElems exampleHeap 5 20 = map (VUint tUint8) ?us" by code_simp
  have b: "(0::nat) < 16" "16 \<le> length ?us" "length ?us \<le> 1024" by simp_all
  have nv: "5 \<notin> visited ?P" by (simp add: printerOf_def NewPrinter_def)
  have inst: "Format (Suc (Suc 0)) asciilib exampleHeap ?P (False, VSlice tByteSlice 5 20)
                = Return (Flush asciilib ?out, ?P\<lparr>visited := insert 5 (visited ?P)\<rparr>)"
    using C7_sequence_grouping[where L = asciilib and h = exampleHeap and t = tByteSlice
        and a = 5 and len = 20 and te = tUint8 and us = ?us and elemText = ?tx and g = 16
        and p = ?P and n = 0 and rv = "(False, VSlice tByteSlice 5 20)"]
      np[of "VSlice tByteSlice 5 20"] np2 el se g b nv
    by blast
  have out: "Flush asciilib ?out
      = ''{'' @ [CHR 0x0A]
        @ ''    0x00, 0x01, 0x02, 0x03, 0x04, 0x05, 0x06, 0x07, 0x08, 0x09, 0x0a, 0x0b, 0x0c, 0x0d, 0x0e, 0x0f,''
        @ [CHR 0x0A] @ ''    0x10, 0x11, 0x12, 0x13,'' @ [CHR 0x0A] @ ''}''"
    by code_simp
  have v: "insert 5 (visited ?P) = {5}" by (simp add: printerOf_def NewPrinter_def)
  show ?thesis using g inst unfolding out v by blast
qed

text \<open>
  Elements of 16 bits that are signed are not grouped: the group size of an
  \<open>[]int16\<close> is 0 and its 20 elements are rendered one per line.
\<close>

theorem C7_counterexample:
  "tyElemKind tInt16Slice = KInt16
   \<and> groupSizeOf exampleHeap (False, VSlice tInt16Slice 6 20) tInt16Slice = Return 0
   \<and> Format (Suc (Suc 0)) asciilib exampleHeap (printerOf False False False)
       (False, VSlice tInt16Slice 6 20)
     = Return (''{'' @ [CHR 0x0A] @ ''    0,'' @ [CHR 0x0A] @ ''    1,'' @ [CHR 0x0A] @ ''    2,''
                 @ [CHR 0x0A] @ ''    3,'' @ [CHR 0x0A] @ ''    4,'' @ [CHR 0x0A] @ ''    5,''
                 @ [CHR 0x0A] @ ''    6,'' @ [CHR 0x0A] @ ''    7,'' @ [CHR 0x0A] @ ''    8,''
                 @ [CHR 0x0A] @ ''    9,'' @ [CHR 0x0A] @ ''    10,'' @ [CHR 0x0A] @ ''    11,''
                 @ [CHR 0x0A] @ ''    12,'' @ [CHR 0x0A] @ ''    13,'' @ [CHR 0x0A] @ ''    14,''
                 @ [CHR 0x0A] @ ''    15,'' @ [CHR 0x0A] @ ''    16,'' @ [CHR 0x0A] @ ''    17,''
                 @ [CHR 0x0A] @ ''    18,'' @ [CHR 0x0A] @ ''    19,'' @ [CHR 0x0A] @ ''}'',
               (printerOf False False False)\<lparr>visited := {6}\<rparr>)"
proof (intro conjI)
  show "tyElemKind tInt16Slice = KInt16" by (simp add: tInt16Slice_def)
  show "groupSizeOf exampleHeap (False, VSlice tInt16Slice 6 20) tInt16Slice = Return 0"
    by code_simp
  show "Format (Suc (Suc 0)) asciilib exampleHeap (printerOf False False False)
       (False, VSlice tInt16Slice 6 20)
     = Return (''{'' @ [CHR 0x0A] @ ''    0,'' @ [CHR 0x0A] @ ''    1,'' @ [CHR 0x0A] @ ''    2,''
                 @ [CHR 0x0A] @ ''    3,'' @ [CHR 0x0A] @ ''    4,'' @ [CHR 0x0A] @ ''    5,''
                 @ [CHR 0x0A] @ ''    6,'' @ [CHR 0x0A] @ ''    7,'' @ [CHR 0x0A] @ ''    8,''
                 @ [CHR 0x0A] @ ''    9,'' @ [CHR 0x0A] @ ''    10,'' @ [CHR 0x0A] @ ''    11,''
                 @ [CHR 0x0A] @ ''    12,'' @ [CHR 0x0A] @ ''    13,'' @ [CHR 0x0A] @ ''    14,''
                 @ [CHR 0x0A] @ ''    15,'' @ [CHR 0x0A] @ ''    16,'' @ [CHR 0x0A] @ ''    17,''
                 @ [CHR 0x0A] @ ''    18,'' @ [CHR 0x0A] @ ''    19,'' @ [CHR 0x0A] @ ''}'',
               (printerOf False False False)\<lparr>visited := {6}\<rparr>)"
    by code_simp
qed

lemma Split_not_Nil [simp]: "Split s c \<noteq> []"
  by (induction s) (auto split: list.splits)









end
